theory Spec2Isabelle
  imports Complex_Main "HOL-Library.Sublist"
begin

section \<open>Data model\<close>

text \<open>
  The two scripts of the repository are embedded: \<^verbatim>\<open>slim_gh_grabber/slim_scraper.py\<close>
  (pull-request driven, with resume) and \<^verbatim>\<open>slim/slim.py\<close> (issue driven). Functions
  that only the second script has, or that differ there, carry the prefix \<open>slim_\<close>;
  \<open>make_request\<close> and \<open>get_languages\<close> are the same in both.

  JSON payloads are modelled by the typed views the code reads from them: a key read with
  \<^verbatim>\<open>.get\<close> is an optional field, a key read with \<^verbatim>\<open>[...]\<close> a field that is there.
  Strings are lists of 8-bit characters, read as the code points below 256. Calls of
  \<^verbatim>\<open>print\<close> are left out, except the one that logs a storage error.
\<close>

record repo =
  full_name :: string

record commit_ref =
  sha :: "string option"
  repo_full_name :: "string option"

record pull_request =
  html_url :: string
  merged_at :: "string option"
  body :: "string option"
  base :: "commit_ref option"
  head :: "commit_ref option"

record issue =
  number :: int
  issue_html_url :: string
  issue_pull_request :: bool

record timeline_event =
  event_name :: "string option"
  source_issue_html_url :: "string option"

text \<open>A response: the status, the \<^verbatim>\<open>X-RateLimit-Reset\<close> header when present, and
  \<^verbatim>\<open>response.json()\<close> as each endpoint's reader sees it.\<close>

record response =
  status_code :: int
  rate_limit_reset :: "int option"
  json_items :: "repo list option"
  json_pulls :: "pull_request list"
  json_languages :: "string list"
  json_files :: "string list"
  json_issues :: "issue list"
  json_timeline :: "timeline_event list"
  json_pull :: pull_request

text \<open>A row of the table \<^verbatim>\<open>fixed_issues\<close>; \<open>row_issue_url\<close> is the primary key.\<close>

record fixed_issue =
  row_issue_url :: string
  row_repo_name :: string
  row_pull_request_url :: string
  row_languages :: string
  row_before_code_url :: "string option"
  row_after_code_url :: "string option"
  row_affected_files :: string

datatype error = IndexError | SqliteError | SystemExit | PatternNotModelled

datatype event =
    Get string
  | Sleep real
  | Execute string "nat option"
  | PrintDbError string
  | Commit
  | SaveProgress "string list"

text \<open>
  The world a run acts on. \<open>net w n url\<close> is the answer to the \<open>n\<close>-th GET of the run
  when it is sent to \<open>url\<close>, \<open>clock w n\<close> what \<^verbatim>\<open>time.time()\<close> returns while that answer is
  handled, and \<open>db_fault w n\<close> says whether the \<open>n\<close>-th \<^verbatim>\<open>cursor.execute\<close> raises
  \<^verbatim>\<open>sqlite3.Error\<close>. \<open>table\<close> is what the open connection sees, \<open>durable\<close> what has been
  committed; \<open>progress_file\<close> is \<^verbatim>\<open>progress.json\<close> (\<open>None\<close>: missing or not JSON).
  \<open>trace\<close> records the effects in order.
\<close>

record world =
  net :: "nat \<Rightarrow> string \<Rightarrow> response"
  clock :: "nat \<Rightarrow> real"
  db_fault :: "nat \<Rightarrow> bool"
  requests_sent :: nat
  executes :: nat
  trace :: "event list"
  table :: "fixed_issue list"
  durable :: "fixed_issue list"
  progress_file :: "string list option"

definition emit :: "event \<Rightarrow> world \<Rightarrow> world" where
  "emit e w = w\<lparr>trace := trace w @ [e]\<rparr>"

definition sleep :: "real \<Rightarrow> world \<Rightarrow> world" where
  "sleep secs w = emit (Sleep secs) w"

section \<open>Strings\<close>

definition digit_char :: "nat \<Rightarrow> char" where
  "digit_char n = char_of (48 + n)"

function str_nat :: "nat \<Rightarrow> string" where
  "str_nat n = (if n < 10 then [digit_char n] else str_nat (n div 10) @ [digit_char (n mod 10)])"
  by pat_completeness auto
termination
  by (relation "measure id") auto

declare str_nat.simps [simp del]

definition str_int :: "int \<Rightarrow> string" where
  "str_int i = (if i < 0 then CHR ''-'' # str_nat (nat (- i)) else str_nat (nat i))"

fun contains :: "string \<Rightarrow> string \<Rightarrow> bool" where
  "contains [] sub = (sub = [])"
| "contains (c # cs) sub = (prefix sub (c # cs) \<or> contains cs sub)"

fun split_on :: "char \<Rightarrow> string \<Rightarrow> string list" where
  "split_on sep [] = [[]]"
| "split_on sep (c # cs) =
     (if c = sep then [] # split_on sep cs
      else (case split_on sep cs of [] \<Rightarrow> [[c]] | p # ps \<Rightarrow> (c # p) # ps))"

definition from_end :: "'a list \<Rightarrow> nat \<Rightarrow> error + 'a" where
  "from_end xs k = (if 0 < k \<and> k \<le> length xs then Inr (xs ! (length xs - k)) else Inl IndexError)"

function replace :: "string \<Rightarrow> string \<Rightarrow> string \<Rightarrow> string" where
  "replace old new s =
     (if old = [] then new @ concat (map (\<lambda>c. c # new) s)
      else if s = [] then []
      else if prefix old s then new @ replace old new (drop (length old) s)
      else hd s # replace old new (tl s))"
  by pat_completeness auto
termination
  by (relation "measure (\<lambda>(old, new, s). length s)") auto

declare replace.simps [simp del]

definition hex_digit :: "nat \<Rightarrow> char" where
  "hex_digit n = (if n < 10 then char_of (48 + n) else char_of (87 + n))"

definition json_escape :: "char \<Rightarrow> string" where
  "json_escape c =
     (let n = (of_char c :: nat) in
      if c = CHR 0x22 then [CHR 0x5C, CHR 0x22]
      else if c = CHR 0x5C then [CHR 0x5C, CHR 0x5C]
      else if n = 10 then [CHR 0x5C, CHR ''n'']
      else if n = 13 then [CHR 0x5C, CHR ''r'']
      else if n = 9 then [CHR 0x5C, CHR ''t'']
      else if n = 8 then [CHR 0x5C, CHR ''b'']
      else if n = 12 then [CHR 0x5C, CHR ''f'']
      else if 32 \<le> n \<and> n \<le> 126 then [c]
      else [CHR 0x5C, CHR ''u'', CHR ''0'', CHR ''0'', hex_digit (n div 16), hex_digit (n mod 16)])"

definition json_string :: "string \<Rightarrow> string" where
  "json_string s = CHR 0x22 # concat (map json_escape s) @ [CHR 0x22]"

fun join :: "string \<Rightarrow> string list \<Rightarrow> string" where
  "join sep [] = []"
| "join sep [x] = x"
| "join sep (x # y # ys) = x @ sep @ join sep (y # ys)"

definition json_dumps :: "string list \<Rightarrow> string" where
  "json_dumps xs = ''['' @ join '', '' (map json_string xs) @ '']''"

section \<open>Rate-limited fetcher\<close>

definition requests_get :: "string \<Rightarrow> world \<Rightarrow> response \<times> world" where
  "requests_get url w =
     (net w (requests_sent w) url, emit (Get url) (w\<lparr>requests_sent := Suc (requests_sent w)\<rparr>))"

definition time_time :: "world \<Rightarrow> real" where
  "time_time w = clock w (requests_sent w - 1)"

partial_function (option) make_request :: "string \<Rightarrow> world \<Rightarrow> (response option \<times> world) option" where
  "make_request url w =
     (case requests_get url w of (response, w1) \<Rightarrow>
        if status_code response = 200 then Some (Some response, w1)
        else (case (if status_code response = 403 then rate_limit_reset response else None) of
           Some reset_time \<Rightarrow>
             make_request url (sleep (max 0 (real_of_int reset_time - time_time w1)) w1)
         | None \<Rightarrow>
             if status_code response \<in> {502, 503, 504} then make_request url (sleep 5 w1)
             else Some (None, w1)))"

declare make_request.simps [code]

section \<open>Paginated collector and the other endpoints\<close>

definition search_url :: "string \<Rightarrow> int \<Rightarrow> int \<Rightarrow> string" where
  "search_url query per_page page =
     ''https://api.github.com/search/repositories?q='' @ query
       @ ''+license:mit&sort=forks&order=desc&per_page='' @ str_int per_page
       @ ''&page='' @ str_int page"

definition items_of :: "response \<Rightarrow> repo list" where
  "items_of response = (case json_items response of None \<Rightarrow> [] | Some xs \<Rightarrow> xs)"

fun get_mit_repos_loop ::
  "string \<Rightarrow> int \<Rightarrow> int list \<Rightarrow> repo list \<Rightarrow> world \<Rightarrow> (repo list \<times> world) option" where
  "get_mit_repos_loop query per_page [] repos w = Some (repos, w)"
| "get_mit_repos_loop query per_page (page # rest) repos w =
     (case make_request (search_url query per_page page) w of
        None \<Rightarrow> None
      | Some (None, w1) \<Rightarrow> Some (repos, w1)
      | Some (Some response, w1) \<Rightarrow>
          get_mit_repos_loop query per_page rest (repos @ items_of response) w1)"

definition get_mit_repos :: "string \<Rightarrow> int \<Rightarrow> int \<Rightarrow> world \<Rightarrow> (repo list \<times> world) option" where
  "get_mit_repos query per_page pages w = get_mit_repos_loop query per_page [1..pages] [] w"

definition languages_url :: "string \<Rightarrow> string" where
  "languages_url repo_name = ''https://api.github.com/repos/'' @ repo_name @ ''/languages''"

definition get_languages :: "string \<Rightarrow> world \<Rightarrow> (string \<times> world) option" where
  "get_languages repo_name w =
     (case make_request (languages_url repo_name) w of
        None \<Rightarrow> None
      | Some (Some response, w1) \<Rightarrow> Some (json_dumps (json_languages response), w1)
      | Some (None, w1) \<Rightarrow> Some (''[]'', w1))"

definition files_url_of :: "string \<Rightarrow> error + string" where
  "files_url_of pr_url =
     (if contains pr_url ''github.com'' then
        (let parts = split_on CHR ''/'' pr_url in
         case from_end parts 4 of
           Inl e \<Rightarrow> Inl e
         | Inr owner \<Rightarrow>
             (case from_end parts 3 of
                Inl e \<Rightarrow> Inl e
              | Inr repo \<Rightarrow>
                  (case from_end parts 1 of
                     Inl e \<Rightarrow> Inl e
                   | Inr pr_number \<Rightarrow>
                       Inr (''https://api.github.com/repos/'' @ owner @ ''/'' @ repo
                              @ ''/pulls/'' @ pr_number @ ''/files''))))
      else Inr (pr_url @ ''/files''))"

definition get_affected_files :: "string \<Rightarrow> world \<Rightarrow> ((error + string) \<times> world) option" where
  "get_affected_files pr_url w =
     (if pr_url = [] then Some (Inr ''[]'', w)
      else (case files_url_of pr_url of
          Inl e \<Rightarrow> Some (Inl e, w)
        | Inr files_url \<Rightarrow>
            (case make_request files_url w of
               None \<Rightarrow> None
             | Some (Some response, w1) \<Rightarrow>
                 if json_files response \<noteq> [] then Some (Inr (json_dumps (json_files response)), w1)
                 else Some (Inr ''[]'', w1)
             | Some (None, w1) \<Rightarrow> Some (Inr ''[]'', w1))))"

definition pulls_url :: "string \<Rightarrow> int \<Rightarrow> int \<Rightarrow> string" where
  "pulls_url repo_name per_page page =
     ''https://api.github.com/repos/'' @ repo_name
       @ ''/pulls?state=closed&sort=updated&direction=desc&per_page='' @ str_int per_page
       @ ''&page='' @ str_int page"

definition truthy :: "string option \<Rightarrow> bool" where
  "truthy v = (case v of None \<Rightarrow> False | Some s \<Rightarrow> s \<noteq> [])"

fun get_merged_prs_loop ::
  "string \<Rightarrow> int \<Rightarrow> int list \<Rightarrow> pull_request list \<Rightarrow> world \<Rightarrow> (pull_request list \<times> world) option" where
  "get_merged_prs_loop repo_name per_page [] prs w = Some (prs, w)"
| "get_merged_prs_loop repo_name per_page (page # rest) prs w =
     (case make_request (pulls_url repo_name per_page page) w of
        None \<Rightarrow> None
      | Some (None, w1) \<Rightarrow> Some (prs, w1)
      | Some (Some response, w1) \<Rightarrow>
          get_merged_prs_loop repo_name per_page rest
            (prs @ filter (\<lambda>pr. truthy (merged_at pr)) (json_pulls response)) (sleep 1 w1))"

definition get_merged_prs ::
  "string \<Rightarrow> int \<Rightarrow> int \<Rightarrow> world \<Rightarrow> (pull_request list \<times> world) option" where
  "get_merged_prs repo_name per_page pages w =
     get_merged_prs_loop repo_name per_page [1..pages] [] w"

section \<open>Reference extractor\<close>

text \<open>
  The fragment of Python's \<^verbatim>\<open>re\<close> the two patterns use, matched as the backtracking
  engine does: \<open>rmatch r s\<close> lists the ways \<open>r\<close> matches a prefix of \<open>s\<close>, the engine's
  first choice first, each with the text of group 1 (when the group took part) and the
  rest of \<open>s\<close>. Literals compare case-insensitively (\<^verbatim>\<open>re.IGNORECASE\<close>); \<^verbatim>\<open>\s\<close> and
  \<^verbatim>\<open>\d\<close> are the str classes restricted to code points below 256; \<^verbatim>\<open>.\<close> is every
  character but the newline.
\<close>

datatype atom = Lit char | AnyChar | Space | Digit | OneOf "char list"

datatype re = Eps | Atom atom | Plus atom | Opt re | Alt re re | Seq re re | Group re

definition lower :: "char \<Rightarrow> char" where
  "lower c = (let n = (of_char c :: nat) in if 65 \<le> n \<and> n \<le> 90 then char_of (n + 32) else c)"

definition is_space :: "char \<Rightarrow> bool" where
  "is_space c = ((of_char c :: nat) \<in> {9, 10, 11, 12, 13, 28, 29, 30, 31, 32, 133, 160})"

definition is_digit :: "char \<Rightarrow> bool" where
  "is_digit c = (let n = (of_char c :: nat) in 48 \<le> n \<and> n \<le> 57)"

fun atom_ok :: "atom \<Rightarrow> char \<Rightarrow> bool" where
  "atom_ok (Lit a) c = (lower c = lower a)"
| "atom_ok AnyChar c = (c \<noteq> CHR 0x0A)"
| "atom_ok Space c = is_space c"
| "atom_ok Digit c = is_digit c"
| "atom_ok (OneOf as) c = (lower c \<in> set (map lower as))"

fun rmatch :: "re \<Rightarrow> string \<Rightarrow> (string option \<times> string) list" where
  "rmatch Eps s = [(None, s)]"
| "rmatch (Atom a) s = (case s of [] \<Rightarrow> [] | c # cs \<Rightarrow> if atom_ok a c then [(None, cs)] else [])"
| "rmatch (Plus a) s =
     map (\<lambda>k. (None, drop k s)) (rev [1..<Suc (length (takeWhile (atom_ok a) s))])"
| "rmatch (Opt r) s = rmatch r s @ [(None, s)]"
| "rmatch (Alt r1 r2) s = rmatch r1 s @ rmatch r2 s"
| "rmatch (Seq r1 r2) s =
     concat (map (\<lambda>(g1, s1).
                    map (\<lambda>(g2, s2). (case g2 of None \<Rightarrow> g1 | Some x \<Rightarrow> Some x, s2)) (rmatch r2 s1))
                 (rmatch r1 s))"
| "rmatch (Group r) s = map (\<lambda>(g, s1). (Some (take (length s - length s1) s), s1)) (rmatch r s)"

text \<open>\<^verbatim>\<open>re.findall\<close> for a pattern with one group: scan left to right, take the first
  match at the leftmost position, go on behind it (one character on after an empty match).\<close>

function findall :: "re \<Rightarrow> string \<Rightarrow> string list" where
  "findall r s =
     (case rmatch r s of
        [] \<Rightarrow> (case s of [] \<Rightarrow> [] | c # cs \<Rightarrow> findall r cs)
      | (g, rest) # others \<Rightarrow>
          (case g of None \<Rightarrow> [] | Some x \<Rightarrow> x) #
          (if length rest < length s then findall r rest
           else (case s of [] \<Rightarrow> [] | c # cs \<Rightarrow> findall r cs)))"
  by pat_completeness auto
termination
  by (relation "measure (\<lambda>(r, s). length s)") auto

declare findall.simps [simp del]

fun lits :: "string \<Rightarrow> re" where
  "lits [] = Eps"
| "lits (c # cs) = Seq (Atom (Lit c)) (lits cs)"

text \<open>\<^verbatim>\<open>(?:close[sd]?|fix(?:e[sd])?|resolve[sd]?)\<close>\<close>

definition keyword :: re where
  "keyword =
     Alt (Seq (lits ''close'') (Opt (Atom (OneOf ''sd''))))
    (Alt (Seq (lits ''fix'') (Opt (Seq (Atom (Lit CHR ''e'')) (Atom (OneOf ''sd'')))))
         (Seq (lits ''resolve'') (Opt (Atom (OneOf ''sd'')))))"

text \<open>\<^verbatim>\<open>keyword\s+#(\d+)\<close>\<close>

definition bare_pattern :: re where
  "bare_pattern = Seq keyword (Seq (Plus Space) (Seq (Atom (Lit CHR ''#'')) (Group (Plus Digit))))"

text \<open>
  The second pattern splices \<^verbatim>\<open>repo_name.replace('/', '\/')\<close> into the pattern text
  unescaped. \<open>name_atom\<close> reads one character of the name as the pattern compiler does:
  \<^verbatim>\<open>/\<close> arrives as \<^verbatim>\<open>\/\<close>, a literal slash; \<^verbatim>\<open>.\<close> is the wildcard; every other ASCII
  character that is not special in a pattern is a literal. A name with one of the other
  special characters, or with a character outside ASCII, is outside the modelled fragment:
  \<open>None\<close>.
\<close>

definition name_atom :: "char \<Rightarrow> atom option" where
  "name_atom c =
     (if c = CHR ''/'' then Some (Lit CHR ''/'')
      else if c = CHR ''.'' then Some AnyChar
      else if c \<in> set [CHR 0x5C, CHR ''^'', CHR ''$'', CHR ''*'', CHR ''+'', CHR ''?'',
                        CHR ''{'', CHR ''}'', CHR ''['', CHR '']'', CHR ''|'', CHR ''('', CHR '')'']
              \<or> 128 \<le> (of_char c :: nat) then None
      else Some (Lit c))"

fun name_re :: "string \<Rightarrow> re option" where
  "name_re [] = Some Eps"
| "name_re (c # cs) =
     (case name_atom c of
        None \<Rightarrow> None
      | Some a \<Rightarrow> (case name_re cs of None \<Rightarrow> None | Some r \<Rightarrow> Some (Seq (Atom a) r)))"

text \<open>\<^verbatim>\<open>keyword\s+\<close> name \<^verbatim>\<open>#(\d+)\<close>\<close>

definition scoped_pattern :: "re \<Rightarrow> re" where
  "scoped_pattern name =
     Seq keyword (Seq (Plus Space) (Seq name (Seq (Atom (Lit CHR ''#'')) (Group (Plus Digit)))))"

definition issue_url_of :: "string \<Rightarrow> string \<Rightarrow> string" where
  "issue_url_of repo_name issue_num = ''https://github.com/'' @ repo_name @ ''/issues/'' @ issue_num"

definition get_issues_from_pr :: "pull_request \<Rightarrow> string \<Rightarrow> error + string list" where
  "get_issues_from_pr pr_data repo_name =
     (case body pr_data of
        None \<Rightarrow> Inr []
      | Some description \<Rightarrow>
          if description = [] then Inr []
          else (case name_re repo_name of
              None \<Rightarrow> Inl PatternNotModelled
            | Some name \<Rightarrow>
                Inr (concat (map (\<lambda>pattern. map (issue_url_of repo_name) (findall pattern description))
                                 [bare_pattern, scoped_pattern name]))))"

section \<open>Persistence layer\<close>

text \<open>\<^verbatim>\<open>INSERT OR IGNORE INTO fixed_issues VALUES (...)\<close>: the result is
  \<^verbatim>\<open>cursor.rowcount\<close>, or the \<^verbatim>\<open>sqlite3.Error\<close> raised.\<close>

definition cursor_execute :: "fixed_issue \<Rightarrow> world \<Rightarrow> (error + nat) \<times> world" where
  "cursor_execute entry w =
     (let n = executes w; w1 = w\<lparr>executes := Suc n\<rparr> in
      if db_fault w n then (Inl SqliteError, emit (Execute (row_issue_url entry) None) w1)
      else if row_issue_url entry \<in> set (map row_issue_url (table w))
        then (Inr 0, emit (Execute (row_issue_url entry) (Some 0)) w1)
      else (Inr 1, emit (Execute (row_issue_url entry) (Some 1)) (w1\<lparr>table := table w @ [entry]\<rparr>)))"

definition sqlite3_connect :: "world \<Rightarrow> world" where
  "sqlite3_connect w = w\<lparr>table := durable w\<rparr>"

definition conn_commit :: "world \<Rightarrow> world" where
  "conn_commit w = emit Commit (w\<lparr>durable := table w\<rparr>)"

definition conn_close :: "world \<Rightarrow> world" where
  "conn_close w = w\<lparr>table := durable w\<rparr>"

definition create_db :: "world \<Rightarrow> world" where
  "create_db w = conn_close (conn_commit (sqlite3_connect w))"

fun save_linked_issues ::
  "fixed_issue \<Rightarrow> string list \<Rightarrow> nat \<Rightarrow> nat \<Rightarrow> world \<Rightarrow> (nat \<times> nat) \<times> world" where
  "save_linked_issues entry [] added_for_repo total_added w = ((added_for_repo, total_added), w)"
| "save_linked_issues entry (issue_url # rest) added_for_repo total_added w =
     (case cursor_execute (entry\<lparr>row_issue_url := issue_url\<rparr>) w of
        (Inr rowcount, w1) \<Rightarrow>
          if rowcount > 0 then save_linked_issues entry rest (added_for_repo + 1) (total_added + 1) w1
          else save_linked_issues entry rest added_for_repo total_added w1
      | (Inl e, w1) \<Rightarrow>
          save_linked_issues entry rest added_for_repo total_added (emit (PrintDbError issue_url) w1))"

definition commit_url :: "string \<Rightarrow> string option \<Rightarrow> string option" where
  "commit_url repo_name commit_sha =
     (case commit_sha of
        None \<Rightarrow> None
      | Some s \<Rightarrow> if s = [] then None else Some (''https://github.com/'' @ repo_name @ ''/commit/'' @ s))"

definition sha_of :: "commit_ref option \<Rightarrow> string option" where
  "sha_of r = (case r of None \<Rightarrow> None | Some c \<Rightarrow> sha c)"

text \<open>The body of \<^verbatim>\<open>if linked_issues:\<close> for one pull request.\<close>

definition save_pr ::
  "string \<Rightarrow> string \<Rightarrow> pull_request \<Rightarrow> string list \<Rightarrow> nat \<Rightarrow> nat \<Rightarrow> world
     \<Rightarrow> ((error + nat \<times> nat) \<times> world) option" where
  "save_pr repo_name languages pr linked_issues added_for_repo total_added w =
     (let pr_url = html_url pr;
          before_code_url = commit_url repo_name (sha_of (base pr));
          after_code_url = commit_url repo_name (sha_of (head pr))
      in case get_affected_files pr_url w of
           None \<Rightarrow> None
         | Some (Inl e, w1) \<Rightarrow> Some (Inl e, w1)
         | Some (Inr affected_files, w1) \<Rightarrow>
             (case save_linked_issues
                     \<lparr>row_issue_url = [], row_repo_name = repo_name, row_pull_request_url = pr_url,
                      row_languages = languages, row_before_code_url = before_code_url,
                      row_after_code_url = after_code_url, row_affected_files = affected_files\<rparr>
                     linked_issues added_for_repo total_added w1 of
                (counts, w2) \<Rightarrow> Some (Inr counts, w2)))"

text \<open>One turn of \<^verbatim>\<open>for pr in prs\<close>.\<close>

definition process_pr ::
  "string \<Rightarrow> string \<Rightarrow> pull_request \<Rightarrow> nat \<Rightarrow> nat \<Rightarrow> world \<Rightarrow> ((error + nat \<times> nat) \<times> world) option" where
  "process_pr repo_name languages pr added_for_repo total_added w =
     (case get_issues_from_pr pr repo_name of
        Inl e \<Rightarrow> Some (Inl e, w)
      | Inr linked_issues \<Rightarrow>
          (case (if linked_issues \<noteq> []
                 then save_pr repo_name languages pr linked_issues added_for_repo total_added w
                 else Some (Inr (added_for_repo, total_added), w)) of
             None \<Rightarrow> None
           | Some (Inl e, w1) \<Rightarrow> Some (Inl e, w1)
           | Some (Inr (added_for_repo1, total_added1), w1) \<Rightarrow>
               Some (Inr (added_for_repo1, total_added1),
                     sleep (1 / 2)
                       (if added_for_repo1 > 0 \<and> added_for_repo1 mod 10 = 0 then conn_commit w1 else w1))))"

fun process_prs ::
  "string \<Rightarrow> string \<Rightarrow> pull_request list \<Rightarrow> nat \<Rightarrow> nat \<Rightarrow> world
     \<Rightarrow> ((error + nat \<times> nat) \<times> world) option" where
  "process_prs repo_name languages [] added_for_repo total_added w =
     Some (Inr (added_for_repo, total_added), w)"
| "process_prs repo_name languages (pr # rest) added_for_repo total_added w =
     (case process_pr repo_name languages pr added_for_repo total_added w of
        None \<Rightarrow> None
      | Some (Inl e, w1) \<Rightarrow> Some (Inl e, w1)
      | Some (Inr (added_for_repo1, total_added1), w1) \<Rightarrow>
          process_prs repo_name languages rest added_for_repo1 total_added1 w1)"

text \<open>\<^verbatim>\<open>for repo in repos\<close> of \<^verbatim>\<open>populate_db_from_prs\<close>, on the open connection.\<close>

fun populate_repos :: "repo list \<Rightarrow> nat \<Rightarrow> world \<Rightarrow> ((error + nat) \<times> world) option" where
  "populate_repos [] total_added w = Some (Inr total_added, w)"
| "populate_repos (repo # rest) total_added w =
     (case get_languages (full_name repo) w of
        None \<Rightarrow> None
      | Some (languages, w1) \<Rightarrow>
          (case get_merged_prs (full_name repo) 30 3 w1 of
             None \<Rightarrow> None
           | Some (prs, w2) \<Rightarrow>
               if prs = [] then populate_repos rest total_added w2
               else (case process_prs (full_name repo) languages prs 0 total_added w2 of
                   None \<Rightarrow> None
                 | Some (Inl e, w3) \<Rightarrow> Some (Inl e, w3)
                 | Some (Inr (added_for_repo, total_added1), w3) \<Rightarrow>
                     populate_repos rest total_added1 (conn_commit w3))))"

definition populate_db_from_prs :: "repo list \<Rightarrow> world \<Rightarrow> ((error + nat) \<times> world) option" where
  "populate_db_from_prs repos w =
     (case populate_repos repos 0 (sqlite3_connect w) of
        None \<Rightarrow> None
      | Some (Inl e, w1) \<Rightarrow> Some (Inl e, w1)
      | Some (Inr total_added, w1) \<Rightarrow> Some (Inr total_added, conn_close w1))"

section \<open>Crawl/resume controller\<close>

definition save_progress :: "string list \<Rightarrow> world \<Rightarrow> world" where
  "save_progress processed_repo_names w =
     emit (SaveProgress processed_repo_names) (w\<lparr>progress_file := Some processed_repo_names\<rparr>)"

definition load_progress :: "world \<Rightarrow> string list" where
  "load_progress w = (case progress_file w of None \<Rightarrow> [] | Some names \<Rightarrow> names)"

text \<open>\<^verbatim>\<open>for repo in repos_to_process\<close> of the script's main block.\<close>

fun process_repos :: "repo list \<Rightarrow> string list \<Rightarrow> nat \<Rightarrow> world \<Rightarrow> ((error + nat) \<times> world) option" where
  "process_repos [] processed_repo_names total_count w = Some (Inr total_count, w)"
| "process_repos (repo # rest) processed_repo_names total_count w =
     (case populate_db_from_prs [repo] w of
        None \<Rightarrow> None
      | Some (Inl e, w1) \<Rightarrow> Some (Inl e, w1)
      | Some (Inr count, w1) \<Rightarrow>
          process_repos rest (processed_repo_names @ [full_name repo]) (total_count + count)
            (save_progress (processed_repo_names @ [full_name repo]) w1))"

definition repos_to_process :: "repo list \<Rightarrow> string list \<Rightarrow> repo list" where
  "repos_to_process repos processed_repo_names =
     filter (\<lambda>repo. full_name repo \<notin> set processed_repo_names) repos"

definition main :: "world \<Rightarrow> ((error + nat) \<times> world) option" where
  "main w =
     (case get_mit_repos ''stars:>10000'' 100 1000 (create_db w) of
        None \<Rightarrow> None
      | Some (repos, w1) \<Rightarrow>
          if repos = [] then Some (Inl SystemExit, w1)
          else process_repos (repos_to_process repos (load_progress w1)) (load_progress w1) 0 w1)"

section \<open>The issue-driven script\<close>

definition slim_search_url :: "string \<Rightarrow> int \<Rightarrow> int \<Rightarrow> string" where
  "slim_search_url query per_page page =
     ''https://api.github.com/search/repositories?q='' @ query
       @ ''+license:mit&sort=stars&order=desc&per_page='' @ str_int per_page
       @ ''&page='' @ str_int page"

fun slim_get_mit_repos_loop ::
  "string \<Rightarrow> int \<Rightarrow> int list \<Rightarrow> repo list \<Rightarrow> world \<Rightarrow> (repo list \<times> world) option" where
  "slim_get_mit_repos_loop query per_page [] repos w = Some (repos, w)"
| "slim_get_mit_repos_loop query per_page (page # rest) repos w =
     (case make_request (slim_search_url query per_page page) w of
        None \<Rightarrow> None
      | Some (None, w1) \<Rightarrow> Some ([], w1)
      | Some (Some response, w1) \<Rightarrow>
          slim_get_mit_repos_loop query per_page rest (repos @ items_of response) w1)"

definition slim_get_mit_repos :: "string \<Rightarrow> int \<Rightarrow> int \<Rightarrow> world \<Rightarrow> (repo list \<times> world) option" where
  "slim_get_mit_repos query per_page pages w = slim_get_mit_repos_loop query per_page [1..pages] [] w"

definition issues_url :: "string \<Rightarrow> string" where
  "issues_url repo_name =
     ''https://api.github.com/repos/'' @ repo_name @ ''/issues?state=closed&per_page=100''"

definition get_issues :: "string \<Rightarrow> world \<Rightarrow> (issue list \<times> world) option" where
  "get_issues repo_name w =
     (case make_request (issues_url repo_name) w of
        None \<Rightarrow> None
      | Some (Some response, w1) \<Rightarrow> Some (json_issues response, w1)
      | Some (None, w1) \<Rightarrow> Some ([], w1))"

definition timeline_url :: "string \<Rightarrow> int \<Rightarrow> string" where
  "timeline_url repo_name issue_number =
     ''https://api.github.com/repos/'' @ repo_name @ ''/issues/'' @ str_int issue_number
       @ ''/timeline?per_page=100''"

fun first_cross_reference :: "timeline_event list \<Rightarrow> string option" where
  "first_cross_reference [] = None"
| "first_cross_reference (event # timeline) =
     (if event_name event = Some ''cross-referenced''
         \<and> contains (case source_issue_html_url event of None \<Rightarrow> [] | Some u \<Rightarrow> u) ''pull''
      then source_issue_html_url event
      else first_cross_reference timeline)"

definition get_pull_request_from_issue :: "string \<Rightarrow> int \<Rightarrow> world \<Rightarrow> (string option \<times> world) option" where
  "get_pull_request_from_issue repo_name issue_number w =
     (case make_request (timeline_url repo_name issue_number) w of
        None \<Rightarrow> None
      | Some (Some response, w1) \<Rightarrow> Some (first_cross_reference (json_timeline response), w1)
      | Some (None, w1) \<Rightarrow> Some (None, w1))"

definition get_code_before_after ::
  "string \<Rightarrow> world \<Rightarrow> ((string option \<times> string option) \<times> world) option" where
  "get_code_before_after pr_url w =
     (if pr_url = [] then Some ((None, None), w)
      else (case make_request
                   (replace ''/pull/'' ''/pulls/'' (replace ''github.com'' ''api.github.com/repos'' pr_url)) w of
          None \<Rightarrow> None
        | Some (None, w1) \<Rightarrow> Some ((None, None), w1)
        | Some (Some response, w1) \<Rightarrow>
            (let pr_data = json_pull response;
                 base_sha = sha_of (base pr_data);
                 head_sha = sha_of (head pr_data);
                 repo_name = (case base pr_data of None \<Rightarrow> None | Some c \<Rightarrow> repo_full_name c)
             in if \<not> truthy base_sha \<or> \<not> truthy head_sha \<or> \<not> truthy repo_name then Some ((None, None), w1)
                else (case repo_name of
                    None \<Rightarrow> Some ((None, None), w1)
                  | Some name \<Rightarrow> Some ((commit_url name base_sha, commit_url name head_sha), w1)))))"

definition slim_get_affected_files :: "string \<Rightarrow> world \<Rightarrow> (string \<times> world) option" where
  "slim_get_affected_files pr_url w =
     (if pr_url = [] then Some (''[]'', w)
      else (case make_request (replace ''github.com'' ''api.github.com/repos'' pr_url @ ''/files'') w of
          None \<Rightarrow> None
        | Some (Some response, w1) \<Rightarrow> Some (json_dumps (json_files response), w1)
        | Some (None, w1) \<Rightarrow> Some (''[]'', w1)))"

text \<open>The body of \<^verbatim>\<open>if pr_url:\<close> of \<^verbatim>\<open>populate_db\<close>; the insert is not guarded.\<close>

definition populate_issue :: "string \<Rightarrow> issue \<Rightarrow> string \<Rightarrow> world \<Rightarrow> ((error + unit) \<times> world) option" where
  "populate_issue repo_name issue pr_url w =
     (case get_code_before_after pr_url w of
        None \<Rightarrow> None
      | Some ((before_code_url, after_code_url), w1) \<Rightarrow>
          (case get_languages repo_name w1 of
             None \<Rightarrow> None
           | Some (languages, w2) \<Rightarrow>
               (case slim_get_affected_files pr_url w2 of
                  None \<Rightarrow> None
                | Some (affected_files, w3) \<Rightarrow>
                    (case cursor_execute
                            \<lparr>row_issue_url = issue_html_url issue, row_repo_name = repo_name,
                             row_pull_request_url = pr_url, row_languages = languages,
                             row_before_code_url = before_code_url, row_after_code_url = after_code_url,
                             row_affected_files = affected_files\<rparr> w3 of
                       (Inl e, w4) \<Rightarrow> Some (Inl e, w4)
                     | (Inr rowcount, w4) \<Rightarrow> Some (Inr (), w4)))))"

fun populate_issues :: "string \<Rightarrow> issue list \<Rightarrow> world \<Rightarrow> ((error + unit) \<times> world) option" where
  "populate_issues repo_name [] w = Some (Inr (), w)"
| "populate_issues repo_name (issue # rest) w =
     (if issue_pull_request issue then populate_issues repo_name rest w
      else (case get_pull_request_from_issue repo_name (number issue) w of
          None \<Rightarrow> None
        | Some (None, w1) \<Rightarrow> populate_issues repo_name rest w1
        | Some (Some pr_url, w1) \<Rightarrow>
            if pr_url = [] then populate_issues repo_name rest w1
            else (case populate_issue repo_name issue pr_url w1 of
                None \<Rightarrow> None
              | Some (Inl e, w2) \<Rightarrow> Some (Inl e, w2)
              | Some (Inr u, w2) \<Rightarrow> populate_issues repo_name rest w2)))"

fun populate_db_loop :: "repo list \<Rightarrow> world \<Rightarrow> ((error + unit) \<times> world) option" where
  "populate_db_loop [] w = Some (Inr (), w)"
| "populate_db_loop (repo # rest) w =
     (case get_issues (full_name repo) w of
        None \<Rightarrow> None
      | Some (issues, w1) \<Rightarrow>
          (case populate_issues (full_name repo) issues w1 of
             None \<Rightarrow> None
           | Some (Inl e, w2) \<Rightarrow> Some (Inl e, w2)
           | Some (Inr u, w2) \<Rightarrow> populate_db_loop rest (conn_commit w2)))"

definition populate_db :: "repo list \<Rightarrow> world \<Rightarrow> ((error + unit) \<times> world) option" where
  "populate_db repos w =
     (case populate_db_loop repos (sqlite3_connect w) of
        None \<Rightarrow> None
      | Some (Inl e, w1) \<Rightarrow> Some (Inl e, w1)
      | Some (Inr u, w1) \<Rightarrow> Some (Inr (), conn_close w1))"

definition slim_main :: "world \<Rightarrow> ((error + unit) \<times> world) option" where
  "slim_main w =
     (case slim_get_mit_repos ''stars:>100'' 100 10 (create_db w) of
        None \<Rightarrow> None
      | Some (repos, w1) \<Rightarrow> populate_db repos w1)"

section \<open>Definitions used to state the properties\<close>

text \<open>
  The fetcher's contract in the specification's words: the wait it prescribes for a
  response (\<open>None\<close>: the call ends), and what the call then hands back.
\<close>

definition spec_wait :: "response \<Rightarrow> real \<Rightarrow> real option" where
  "spec_wait response now =
     (if status_code response = 200 then None
      else if status_code response = 403 \<and> rate_limit_reset response \<noteq> None
        then Some (max 0 (real_of_int (the (rate_limit_reset response)) - now))
      else if status_code response \<in> {502, 503, 504} then Some 5
      else None)"

definition spec_result :: "response \<Rightarrow> response option" where
  "spec_result response = (if status_code response = 200 then Some response else None)"

definition retryable :: "response \<Rightarrow> bool" where
  "retryable response =
     (status_code response \<noteq> 200 \<and>
      (status_code response = 403 \<and> rate_limit_reset response \<noteq> None
       \<or> status_code response \<in> {502, 503, 504}))"

text \<open>The effects of \<open>k\<close> rounds of request and wait, from the world \<open>w\<close> on.\<close>

definition waits :: "world \<Rightarrow> string \<Rightarrow> nat \<Rightarrow> event list" where
  "waits w url k =
     concat (map (\<lambda>i. [Get url, Sleep (the (spec_wait (net w (requests_sent w + i) url)
                                                       (clock w (requests_sent w + i))))])
                 [0..<k])"

text \<open>Sample values for the closed instances.\<close>

definition blank_pull :: pull_request where
  "blank_pull = \<lparr>html_url = [], merged_at = None, body = None, base = None, head = None\<rparr>"

definition blank_response :: "int \<Rightarrow> response" where
  "blank_response status =
     \<lparr>status_code = status, rate_limit_reset = None, json_items = None, json_pulls = [],
      json_languages = [], json_files = [], json_issues = [], json_timeline = [],
      json_pull = blank_pull\<rparr>"

definition fresh_world :: "(nat \<Rightarrow> string \<Rightarrow> response) \<Rightarrow> world" where
  "fresh_world answers =
     \<lparr>net = answers, clock = (\<lambda>n. 0), db_fault = (\<lambda>n. False), requests_sent = 0, executes = 0,
      trace = [], table = [], durable = [], progress_file = None\<rparr>"

definition rate_limited_world :: world where
  "rate_limited_world =
     (fresh_world (\<lambda>n url. if n = 0 then (blank_response 403)\<lparr>rate_limit_reset := Some 10\<rparr>
                              else if n = 1 then blank_response 503
                              else blank_response 200))
       \<lparr>clock := (\<lambda>n. 15 / 2)\<rparr>"

text \<open>The issue URLs of the inserts a trace attempted, in order.\<close>

fun attempted :: "event list \<Rightarrow> string list" where
  "attempted [] = []"
| "attempted (Execute issue_url r # evs) = issue_url # attempted evs"
| "attempted (e # evs) = attempted evs"

definition sample_row :: "string \<Rightarrow> string \<Rightarrow> fixed_issue" where
  "sample_row issue_url langs =
     \<lparr>row_issue_url = issue_url, row_repo_name = ''o/r'',
      row_pull_request_url = ''https://github.com/o/r/pull/1'', row_languages = langs,
      row_before_code_url = None, row_after_code_url = None, row_affected_files = ''[]''\<rparr>"

definition quiet_world :: world where
  "quiet_world = fresh_world (\<lambda>n url. blank_response 200)"

text \<open>A network in which every request is answered for good after finitely many retries.\<close>

definition settles :: "world \<Rightarrow> bool" where
  "settles w = (\<forall>n url. \<exists>k. \<not> retryable (net w (n + k) url))"

text \<open>\<open>fetched P w w'\<close>: \<open>w'\<close> is \<open>w\<close> after some GETs and waits whose events satisfy \<open>P\<close>;
  nothing but the request counter and the trace has changed.\<close>

definition fetched :: "(event \<Rightarrow> bool) \<Rightarrow> world \<Rightarrow> world \<Rightarrow> bool" where
  "fetched P w w' =
     (\<exists>n evs. w' = w\<lparr>requests_sent := requests_sent w + n, trace := trace w @ evs\<rparr> \<and> list_all P evs)"

definition get_or_sleep :: "string \<Rightarrow> event \<Rightarrow> bool" where
  "get_or_sleep url e = (case e of Get u \<Rightarrow> u = url | Sleep secs \<Rightarrow> True | _ \<Rightarrow> False)"

text \<open>The answers a list of pages gets when every request is answered at the first try:
  the \<open>i\<close>-th page of the list is answered by request \<open>n + i\<close>.\<close>

fun first_answers :: "(nat \<Rightarrow> string \<Rightarrow> response) \<Rightarrow> nat \<Rightarrow> (int \<Rightarrow> string) \<Rightarrow> int list \<Rightarrow> response list" where
  "first_answers answers n url_of [] = []"
| "first_answers answers n url_of (page # rest) =
     answers n (url_of page) # first_answers answers (Suc n) url_of rest"

definition successes :: "response list \<Rightarrow> response list" where
  "successes rs = takeWhile (\<lambda>r. status_code r = 200) rs"

text \<open>Sample worlds for the closed instances.\<close>

definition named :: "string \<Rightarrow> repo" where
  "named n = \<lparr>full_name = n\<rparr>"

definition paged_world :: world where
  "paged_world =
     fresh_world (\<lambda>n url.
       if n = 0 then (blank_response 200)\<lparr>json_items := Some [named ''a/a'']\<rparr>
       else if n = 1 then (blank_response 200)\<lparr>json_items := Some [named ''b/b'', named ''c/c'']\<rparr>
       else if n = 2 then (blank_response 200)\<lparr>json_items := Some []\<rparr>
       else if n = 3 then (blank_response 200)\<lparr>json_items := Some [named ''d/d'']\<rparr>
       else blank_response 404)"

text \<open>The row a pull request stores for each of its linked issues, but for the key.\<close>

definition pr_entry :: "string \<Rightarrow> string \<Rightarrow> pull_request \<Rightarrow> string \<Rightarrow> fixed_issue" where
  "pr_entry repo_name languages pr affected_files =
     \<lparr>row_issue_url = [], row_repo_name = repo_name, row_pull_request_url = html_url pr,
      row_languages = languages,
      row_before_code_url = commit_url repo_name (sha_of (base pr)),
      row_after_code_url = commit_url repo_name (sha_of (head pr)),
      row_affected_files = affected_files\<rparr>"

definition after_pr :: "nat \<Rightarrow> world \<Rightarrow> world" where
  "after_pr added_for_repo w =
     sleep (1 / 2) (if added_for_repo > 0 \<and> added_for_repo mod 10 = 0 then conn_commit w else w)"

definition sample_pr :: pull_request where
  "sample_pr =
     \<lparr>html_url = ''https://github.com/o/r/pull/5'', merged_at = Some ''2024-01-01T00:00:00Z'',
      body = Some ''fixes #1'', base = None,
      head = Some \<lparr>sha = Some ''abc'', repo_full_name = None\<rparr>\<rparr>"

definition failing_world :: world where
  "failing_world = fresh_world (\<lambda>n url. blank_response 404)"

text \<open>The largest number of inserted rows that were not yet committed, over the course
  of a trace: \<open>pending\<close> counts the rows inserted since the last commit.\<close>

fun max_uncommitted :: "event list \<Rightarrow> nat \<Rightarrow> nat" where
  "max_uncommitted [] pending = pending"
| "max_uncommitted (Execute issue_url (Some rowcount) # evs) pending =
     max pending (max_uncommitted evs (pending + rowcount))"
| "max_uncommitted (Commit # evs) pending = max pending (max_uncommitted evs 0)"
| "max_uncommitted (e # evs) pending = max_uncommitted evs pending"

fun db_events :: "event list \<Rightarrow> event list" where
  "db_events [] = []"
| "db_events (Execute issue_url r # evs) = Execute issue_url r # db_events evs"
| "db_events (Commit # evs) = Commit # db_events evs"
| "db_events (e # evs) = db_events evs"

definition merged_pr :: "string \<Rightarrow> string \<Rightarrow> pull_request" where
  "merged_pr url description =
     \<lparr>html_url = url, merged_at = Some ''2024-01-01T00:00:00Z'', body = Some description,
      base = None, head = None\<rparr>"

text \<open>One repository with two merged pull requests, each closing six issues; every
  request after the first page of pull requests fails.\<close>

definition batch_world :: world where
  "batch_world =
     fresh_world (\<lambda>n url.
       if n = 0 then (blank_response 200)\<lparr>json_languages := [''Python'']\<rparr>
       else if n = 1 then (blank_response 200)\<lparr>json_pulls :=
          [merged_pr ''https://github.com/o/r/pull/1''
             ''fixes #1, fixes #2, fixes #3, fixes #4, fixes #5, fixes #6'',
           merged_pr ''https://github.com/o/r/pull/2''
             ''closes #7 closes #8 closes #9 closes #10 closes #11 closes #12'']\<rparr>
       else blank_response 404)"

text \<open>The issue URLs whose insert raised, and those a storage error was logged for.\<close>

fun failed :: "event list \<Rightarrow> string list" where
  "failed [] = []"
| "failed (Execute issue_url None # evs) = issue_url # failed evs"
| "failed (e # evs) = failed evs"

fun logged :: "event list \<Rightarrow> string list" where
  "logged [] = []"
| "logged (PrintDbError issue_url # evs) = issue_url # logged evs"
| "logged (e # evs) = logged evs"

definition linked_of :: "string \<Rightarrow> pull_request \<Rightarrow> string list" where
  "linked_of repo_name pr = (case get_issues_from_pr pr repo_name of Inl e \<Rightarrow> [] | Inr urls \<Rightarrow> urls)"

text \<open>A pull request the model can process without an exception: its description is
  matched by modelled patterns, and the URL of its file list can be formed.\<close>

definition readable :: "string \<Rightarrow> pull_request \<Rightarrow> bool" where
  "readable repo_name pr =
     ((case get_issues_from_pr pr repo_name of Inl e \<Rightarrow> False | Inr urls \<Rightarrow> True)
      \<and> (html_url pr = [] \<or> (case files_url_of (html_url pr) of Inl e \<Rightarrow> False | Inr u \<Rightarrow> True)))"

text \<open>A world for the issue-driven script: one answer serves every endpoint. Two closed
  issues, each cross-referenced from a pull request.\<close>

definition rich_response :: response where
  "rich_response =
     \<lparr>status_code = 200, rate_limit_reset = None, json_items = Some [named ''o/r''],
      json_pulls = [],
      json_languages = [''Python''], json_files = [''a.py''],
      json_issues =
        [\<lparr>number = 1, issue_html_url = ''https://github.com/o/r/issues/1'', issue_pull_request = False\<rparr>,
         \<lparr>number = 2, issue_html_url = ''https://github.com/o/r/issues/2'', issue_pull_request = False\<rparr>],
      json_timeline =
        [\<lparr>event_name = Some ''cross-referenced'',
          source_issue_html_url = Some ''https://github.com/o/r/pull/5''\<rparr>],
      json_pull = sample_pr\<rparr>"

definition slim_world :: world where
  "slim_world = fresh_world (\<lambda>n url. rich_response)"

text \<open>The URLs a trace requested, in order.\<close>

fun requested :: "event list \<Rightarrow> string list" where
  "requested [] = []"
| "requested (Get url # evs) = url # requested evs"
| "requested (e # evs) = requested evs"

text \<open>A world whose second insert raises.\<close>

definition faulty_world :: world where
  "faulty_world = failing_world\<lparr>db_fault := (\<lambda>n. n = 1)\<rparr>"

text \<open>
  Events by their place in the processing of a repository: \<open>pr_event\<close> are those of a
  turn for one pull request (the only requests are for file lists), \<open>pulls_event\<close> those
  of listing the merged pull requests, \<open>later_event\<close> both, that is, all that follow the
  language lookup.
\<close>

definition pr_event :: "event \<Rightarrow> bool" where
  "pr_event e = (case e of Get u \<Rightarrow> suffix ''/files'' u | SaveProgress names \<Rightarrow> False | _ \<Rightarrow> True)"

definition pulls_event :: "string \<Rightarrow> event \<Rightarrow> bool" where
  "pulls_event repo_name e =
     (case e of Get u \<Rightarrow> u \<in> set (map (pulls_url repo_name 30) [1, 2, 3])
      | Sleep secs \<Rightarrow> True | _ \<Rightarrow> False)"

definition later_event :: "string \<Rightarrow> event \<Rightarrow> bool" where
  "later_event repo_name e = (pr_event e \<or> pulls_event repo_name e)"

text \<open>\<open>progressed P Q w w'\<close>: from \<open>w\<close> to \<open>w'\<close> the trace grew by events that satisfy \<open>P\<close>
  and the table by rows that satisfy \<open>Q\<close>; the network, the clock, the storage faults and
  the progress file are the same.\<close>

definition progressed :: "(event \<Rightarrow> bool) \<Rightarrow> (fixed_issue \<Rightarrow> bool) \<Rightarrow> world \<Rightarrow> world \<Rightarrow> bool" where
  "progressed P Q w w' =
     (net w' = net w \<and> clock w' = clock w \<and> db_fault w' = db_fault w
      \<and> progress_file w' = progress_file w
      \<and> (\<exists>evs. trace w' = trace w @ evs \<and> list_all P evs)
      \<and> (\<exists>rows. table w' = table w @ rows \<and> list_all Q rows))"

text \<open>One repository with one merged pull request that closes one issue.\<close>

definition single_pr_world :: world where
  "single_pr_world =
     fresh_world (\<lambda>n url.
       if n = 0 then (blank_response 200)\<lparr>json_languages := [''Python'']\<rparr>
       else if n = 1 then (blank_response 200)\<lparr>json_pulls := [sample_pr]\<rparr>
       else blank_response 404)"

section \<open>The fetcher\<close>

lemma emit_simps [simp]:
  "trace (emit e w) = trace w @ [e]"
  "net (emit e w) = net w"
  "clock (emit e w) = clock w"
  "db_fault (emit e w) = db_fault w"
  "requests_sent (emit e w) = requests_sent w"
  "executes (emit e w) = executes w"
  "table (emit e w) = table w"
  "durable (emit e w) = durable w"
  "progress_file (emit e w) = progress_file w"
  by (simp_all add: emit_def)

lemma sleep_simps [simp]:
  "trace (sleep secs w) = trace w @ [Sleep secs]"
  "net (sleep secs w) = net w"
  "clock (sleep secs w) = clock w"
  "db_fault (sleep secs w) = db_fault w"
  "requests_sent (sleep secs w) = requests_sent w"
  "executes (sleep secs w) = executes w"
  "table (sleep secs w) = table w"
  "durable (sleep secs w) = durable w"
  "progress_file (sleep secs w) = progress_file w"
  by (simp_all add: sleep_def)

lemma retryable_spec_wait: "retryable r \<longleftrightarrow> spec_wait r now \<noteq> None"
  by (auto simp: retryable_def spec_wait_def)

lemma make_request_terminal:
  assumes "\<not> retryable (net w (requests_sent w) url)"
  shows "make_request url w =
           Some (spec_result (net w (requests_sent w) url),
                 emit (Get url) (w\<lparr>requests_sent := Suc (requests_sent w)\<rparr>))"
  using assms
  by (subst make_request.simps)
     (auto simp: requests_get_def retryable_def spec_result_def split: if_splits option.splits)

lemma make_request_retry:
  assumes "spec_wait (net w (requests_sent w) url) (clock w (requests_sent w)) = Some secs"
  shows "make_request url w =
           make_request url (sleep secs (emit (Get url) (w\<lparr>requests_sent := Suc (requests_sent w)\<rparr>)))"
  using assms
  by (subst make_request.simps)
     (auto simp: requests_get_def spec_wait_def time_time_def split: if_splits option.splits)

lemma waits_Suc:
  "waits w url (Suc k) =
     [Get url, Sleep (the (spec_wait (net w (requests_sent w) url) (clock w (requests_sent w))))]
     @ waits (sleep secs (emit (Get url) (w\<lparr>requests_sent := Suc (requests_sent w)\<rparr>))) url k"
proof -
  have "[0..<Suc k] = 0 # map Suc [0..<k]"
    by (simp add: upt_conv_Cons map_Suc_upt del: upt_Suc)
  then show ?thesis
    by (simp add: waits_def comp_def del: upt_Suc)
qed

lemma make_request_after_retries:
  assumes "\<forall>i<k. retryable (net w (requests_sent w + i) url)"
    and "\<not> retryable (net w (requests_sent w + k) url)"
  shows "make_request url w =
           Some (spec_result (net w (requests_sent w + k) url),
                 w\<lparr>requests_sent := requests_sent w + Suc k,
                   trace := trace w @ waits w url k @ [Get url]\<rparr>)"
  using assms
proof (induction k arbitrary: w)
  case 0
  then show ?case
    by (simp add: make_request_terminal waits_def emit_def)
next
  case (Suc k)
  from Suc.prems(1) have "retryable (net w (requests_sent w) url)"
    by force
  then obtain secs where
    secs: "spec_wait (net w (requests_sent w) url) (clock w (requests_sent w)) = Some secs"
    using retryable_spec_wait by blast
  define w2 where "w2 = sleep secs (emit (Get url) (w\<lparr>requests_sent := Suc (requests_sent w)\<rparr>))"
  have env: "net w2 = net w" "clock w2 = clock w" "requests_sent w2 = Suc (requests_sent w)"
    "trace w2 = trace w @ [Get url, Sleep secs]"
    by (simp_all add: w2_def)
  have a: "\<forall>i<k. retryable (net w2 (requests_sent w2 + i) url)"
    using Suc.prems(1) by (auto simp: env)
  have b: "\<not> retryable (net w2 (requests_sent w2 + k) url)"
    using Suc.prems(2) by (simp add: env)
  have "make_request url w = make_request url w2"
    unfolding w2_def by (rule make_request_retry [OF secs])
  also have "\<dots> = Some (spec_result (net w2 (requests_sent w2 + k) url),
                 w2\<lparr>requests_sent := requests_sent w2 + Suc k,
                   trace := trace w2 @ waits w2 url k @ [Get url]\<rparr>)"
    by (rule Suc.IH [OF a b])
  also have "\<dots> = Some (spec_result (net w (requests_sent w + Suc k) url),
                 w\<lparr>requests_sent := requests_sent w + Suc (Suc k),
                   trace := trace w @ waits w url (Suc k) @ [Get url]\<rparr>)"
    using secs by (simp add: env waits_Suc [where secs = secs] w2_def [symmetric])
       (simp add: w2_def sleep_def emit_def)
  finally show ?case .
qed

lemma make_request_returns_terminal:
  "make_request url w = Some y \<Longrightarrow> \<exists>i. \<not> retryable (net w (requests_sent w + i) url)"
proof (induction rule: make_request.raw_induct [rotated 1, consumes 1])
  case (1 make_request' url w y)
  let ?r = "net w (requests_sent w) url"
  show ?case
  proof (cases "retryable ?r")
    case False
    then have "\<not> retryable (net w (requests_sent w + 0) url)" by simp
    then show ?thesis by blast
  next
    case True
    then obtain secs where s:
      "make_request' url (sleep secs (emit (Get url) (w\<lparr>requests_sent := Suc (requests_sent w)\<rparr>))) = Some y"
      using 1(2)
      by (auto simp: retryable_def requests_get_def split: if_splits option.splits)
    from 1(1) [OF s] obtain i where "\<not> retryable (net w (Suc (requests_sent w) + i) url)"
      by auto
    then have "\<not> retryable (net w (requests_sent w + Suc i) url)" by simp
    then show ?thesis by blast
  qed
qed

lemma make_request_never_returns:
  assumes "\<forall>i. retryable (net w (requests_sent w + i) url)"
  shows "make_request url w = None"
  using assms make_request_returns_terminal [of url w] by (cases "make_request url w") auto

lemma make_request_step:
  "make_request url w =
     (let response = net w (requests_sent w) url;
          w1 = emit (Get url) (w\<lparr>requests_sent := Suc (requests_sent w)\<rparr>)
      in if status_code response = 200 then Some (Some response, w1)
         else (case (if status_code response = 403 then rate_limit_reset response else None) of
            Some reset_time \<Rightarrow>
              make_request url (sleep (max 0 (real_of_int reset_time - time_time w1)) w1)
          | None \<Rightarrow>
              if status_code response \<in> {502, 503, 504} then make_request url (sleep 5 w1)
              else Some (None, w1)))"
  by (subst make_request.simps) (simp add: requests_get_def Let_def)

lemma make_request_one_step:
  assumes "requests_get url w = (response, w1)"
  shows "status_code response = 200 \<longrightarrow> make_request url w = Some (Some response, w1)"
    and "\<forall>reset_time. status_code response = 403 \<and> rate_limit_reset response = Some reset_time \<longrightarrow>
         make_request url w
           = make_request url (sleep (max 0 (real_of_int reset_time - time_time w1)) w1)"
    and "status_code response \<in> {502, 503, 504} \<longrightarrow>
         make_request url w = make_request url (sleep 5 w1)"
    and "status_code response \<notin> {200, 502, 503, 504}
         \<and> \<not> (status_code response = 403 \<and> rate_limit_reset response \<noteq> None) \<longrightarrow>
         make_request url w = Some (None, w1)"
proof -
  have r: "response = net w (requests_sent w) url"
    and w1: "w1 = emit (Get url) (w\<lparr>requests_sent := Suc (requests_sent w)\<rparr>)"
    using assms by (simp_all add: requests_get_def)
  show "status_code response = 200 \<longrightarrow> make_request url w = Some (Some response, w1)"
    by (subst make_request_step) (simp add: r w1 Let_def)
  show "\<forall>reset_time. status_code response = 403 \<and> rate_limit_reset response = Some reset_time \<longrightarrow>
         make_request url w
           = make_request url (sleep (max 0 (real_of_int reset_time - time_time w1)) w1)"
    by (subst make_request_step) (simp add: r w1 Let_def)
  show "status_code response \<in> {502, 503, 504} \<longrightarrow>
         make_request url w = make_request url (sleep 5 w1)"
    by (subst make_request_step) (auto simp add: r w1 Let_def)
  show "status_code response \<notin> {200, 502, 503, 504}
         \<and> \<not> (status_code response = 403 \<and> rate_limit_reset response \<noteq> None) \<longrightarrow>
         make_request url w = Some (None, w1)"
    by (subst make_request_step) (auto simp add: r w1 Let_def split: option.splits)
qed

text \<open>
  Claim C4 (fetcher contract). For every URL and world, with \<open>response\<close> the answer to the
  next GET and \<open>w1\<close> the world after it: on status 200 \<open>make_request\<close> returns the
  response; on 403 with the rate-limit-reset header it sleeps \<open>max 0 (reset_time - now)\<close>
  and issues the same request again; on 502, 503 and 504 it sleeps 5 and issues the same
  request again; on every other status it returns \<open>None\<close> at once. There is no cap on the
  retries: after any number \<open>k\<close> of answers that call for a retry, the first answer that
  does not is the one handed back, after exactly \<open>k\<close> waits; and when every answer calls
  for a retry the call never returns.
\<close>

theorem make_request_contract:
  "(case requests_get url w of (response, w1) \<Rightarrow>
      (status_code response = 200 \<longrightarrow> make_request url w = Some (Some response, w1)) \<and>
      (\<forall>reset_time. status_code response = 403 \<and> rate_limit_reset response = Some reset_time \<longrightarrow>
         make_request url w
           = make_request url (sleep (max 0 (real_of_int reset_time - time_time w1)) w1)) \<and>
      (status_code response \<in> {502, 503, 504} \<longrightarrow>
         make_request url w = make_request url (sleep 5 w1)) \<and>
      (status_code response \<notin> {200, 502, 503, 504}
         \<and> \<not> (status_code response = 403 \<and> rate_limit_reset response \<noteq> None) \<longrightarrow>
         make_request url w = Some (None, w1)))
   \<and> ((\<forall>i<k. retryable (net w (requests_sent w + i) url))
        \<and> \<not> retryable (net w (requests_sent w + k) url) \<longrightarrow>
       make_request url w =
         Some (spec_result (net w (requests_sent w + k) url),
               w\<lparr>requests_sent := requests_sent w + Suc k,
                 trace := trace w @ waits w url k @ [Get url]\<rparr>))
   \<and> ((\<forall>i. retryable (net w (requests_sent w + i) url)) \<longrightarrow> make_request url w = None)"
proof -
  obtain response w1 where g: "requests_get url w = (response, w1)"
    by (cases "requests_get url w")
  show ?thesis
    unfolding g prod.case
    using make_request_one_step [OF g] make_request_after_retries [of k w url]
      make_request_never_returns [of w url]
    by blast
qed

theorem make_request_contract_witness:
  "make_request ''u'' rate_limited_world =
     Some (Some (blank_response 200),
           rate_limited_world\<lparr>requests_sent := 3,
             trace := [Get ''u'', Sleep (5 / 2), Get ''u'', Sleep 5, Get ''u'']\<rparr>)
   \<and> make_request ''u'' rate_limited_world =
       make_request ''u'' (sleep (5 / 2) (snd (requests_get ''u'' rate_limited_world)))
   \<and> make_request ''u'' (fresh_world (\<lambda>n url. blank_response 404)) =
       Some (None, snd (requests_get ''u'' (fresh_world (\<lambda>n url. blank_response 404))))
   \<and> make_request ''u'' (fresh_world (\<lambda>n url. blank_response 503)) = None"
proof (intro conjI)
  have r: "\<forall>i<2. retryable (net rate_limited_world (requests_sent rate_limited_world + i) ''u'')"
    by (simp add: rate_limited_world_def fresh_world_def retryable_def blank_response_def
        less_Suc_eq numeral_2_eq_2)
  have t: "\<not> retryable (net rate_limited_world (requests_sent rate_limited_world + 2) ''u'')"
    by (simp add: rate_limited_world_def fresh_world_def retryable_def blank_response_def)
  have ws: "waits rate_limited_world ''u'' 2 = [Get ''u'', Sleep (5 / 2), Get ''u'', Sleep 5]"
    by (simp add: waits_def rate_limited_world_def fresh_world_def spec_wait_def
        blank_response_def numeral_2_eq_2)
  from make_request_contract [of "''u''" rate_limited_world 2] r t
  have "make_request ''u'' rate_limited_world =
         Some (spec_result (net rate_limited_world (requests_sent rate_limited_world + 2) ''u''),
               rate_limited_world\<lparr>requests_sent := requests_sent rate_limited_world + Suc 2,
                 trace := trace rate_limited_world @ waits rate_limited_world ''u'' 2 @ [Get ''u'']\<rparr>)"
    by blast
  then show "make_request ''u'' rate_limited_world =
     Some (Some (blank_response 200),
           rate_limited_world\<lparr>requests_sent := 3,
             trace := [Get ''u'', Sleep (5 / 2), Get ''u'', Sleep 5, Get ''u'']\<rparr>)"
    unfolding ws
    by (simp add: rate_limited_world_def fresh_world_def spec_result_def blank_response_def)
  show "make_request ''u'' rate_limited_world =
       make_request ''u'' (sleep (5 / 2) (snd (requests_get ''u'' rate_limited_world)))"
    using make_request_contract [of "''u''" rate_limited_world 0]
    by (simp add: requests_get_def rate_limited_world_def fresh_world_def blank_response_def
        time_time_def)
  show "make_request ''u'' (fresh_world (\<lambda>n url. blank_response 404)) =
       Some (None, snd (requests_get ''u'' (fresh_world (\<lambda>n url. blank_response 404))))"
    using make_request_contract [of "''u''" "fresh_world (\<lambda>n url. blank_response 404)" 0]
    by (simp add: requests_get_def fresh_world_def blank_response_def)
  show "make_request ''u'' (fresh_world (\<lambda>n url. blank_response 503)) = None"
    using make_request_contract [of "''u''" "fresh_world (\<lambda>n url. blank_response 503)" 0]
    by (simp add: fresh_world_def blank_response_def retryable_def)
qed

section \<open>Extractor and insert: basic facts\<close>

lemma get_issues_from_pr_matches:
  assumes "body pr_data = Some description" and "description \<noteq> []"
    and "name_re repo_name = Some name"
  shows "get_issues_from_pr pr_data repo_name =
           Inr (map (issue_url_of repo_name) (findall bare_pattern description)
                @ map (issue_url_of repo_name) (findall (scoped_pattern name) description))"
  using assms by (simp add: get_issues_from_pr_def)

lemma get_issues_from_pr_empty:
  "body pr_data = None \<or> body pr_data = Some [] \<Longrightarrow> get_issues_from_pr pr_data repo_name = Inr []"
  by (auto simp: get_issues_from_pr_def)

lemma cursor_execute_fields [simp]:
  "net (snd (cursor_execute entry w)) = net w"
  "clock (snd (cursor_execute entry w)) = clock w"
  "db_fault (snd (cursor_execute entry w)) = db_fault w"
  "requests_sent (snd (cursor_execute entry w)) = requests_sent w"
  "executes (snd (cursor_execute entry w)) = Suc (executes w)"
  "durable (snd (cursor_execute entry w)) = durable w"
  "progress_file (snd (cursor_execute entry w)) = progress_file w"
  by (simp_all add: cursor_execute_def Let_def)

lemma cursor_execute_fault:
  "db_fault w (executes w) \<Longrightarrow>
     cursor_execute entry w =
       (Inl SqliteError, emit (Execute (row_issue_url entry) None) (w\<lparr>executes := Suc (executes w)\<rparr>))"
  by (simp add: cursor_execute_def Let_def)

lemma cursor_execute_ignore:
  "\<not> db_fault w (executes w) \<Longrightarrow> row_issue_url entry \<in> row_issue_url ` set (table w) \<Longrightarrow>
     cursor_execute entry w =
       (Inr 0, emit (Execute (row_issue_url entry) (Some 0)) (w\<lparr>executes := Suc (executes w)\<rparr>))"
  by (simp add: cursor_execute_def Let_def)

lemma cursor_execute_insert:
  "\<not> db_fault w (executes w) \<Longrightarrow> row_issue_url entry \<notin> row_issue_url ` set (table w) \<Longrightarrow>
     cursor_execute entry w =
       (Inr 1, emit (Execute (row_issue_url entry) (Some 1))
                 (w\<lparr>executes := Suc (executes w), table := table w @ [entry]\<rparr>))"
  by (simp add: cursor_execute_def Let_def)

lemma cursor_execute_table:
  "table (snd (cursor_execute entry w)) =
     (if \<not> db_fault w (executes w) \<and> row_issue_url entry \<notin> row_issue_url ` set (table w)
      then table w @ [entry] else table w)"
  by (simp add: cursor_execute_def Let_def)

lemma cursor_execute_rowcount:
  "fst (cursor_execute entry w) =
     (if db_fault w (executes w) then Inl SqliteError
      else if row_issue_url entry \<in> row_issue_url ` set (table w) then Inr 0 else Inr 1)"
  by (simp add: cursor_execute_def Let_def)

lemma cursor_execute_distinct:
  "distinct (map row_issue_url (table w)) \<Longrightarrow>
     distinct (map row_issue_url (table (snd (cursor_execute entry w))))"
  by (simp add: cursor_execute_table)

lemma attempted_append [simp]: "attempted (xs @ ys) = attempted xs @ attempted ys"
  by (induction xs rule: attempted.induct) auto

lemma save_linked_issues_step:
  "save_linked_issues entry (issue_url # rest) a t w =
     (if db_fault w (executes w) then
        save_linked_issues entry rest a t
          (emit (PrintDbError issue_url)
             (emit (Execute issue_url None) (w\<lparr>executes := Suc (executes w)\<rparr>)))
      else if issue_url \<in> row_issue_url ` set (table w) then
        save_linked_issues entry rest a t
          (emit (Execute issue_url (Some 0)) (w\<lparr>executes := Suc (executes w)\<rparr>))
      else
        save_linked_issues entry rest (Suc a) (Suc t)
          (emit (Execute issue_url (Some 1))
             (w\<lparr>executes := Suc (executes w), table := table w @ [entry\<lparr>row_issue_url := issue_url\<rparr>]\<rparr>)))"
  by (simp add: cursor_execute_def Let_def)

lemma save_linked_issues_frame:
  "save_linked_issues entry urls a t w = (counts, w') \<Longrightarrow>
     net w' = net w \<and> clock w' = clock w \<and> db_fault w' = db_fault w
     \<and> requests_sent w' = requests_sent w \<and> durable w' = durable w
     \<and> progress_file w' = progress_file w \<and> executes w' = executes w + length urls"
proof (induction urls arbitrary: a t w)
  case Nil
  then show ?case by simp
next
  case (Cons u urls)
  from Cons.prems show ?case
    unfolding save_linked_issues_step
    by (auto split: if_splits dest!: Cons.IH)
qed

lemma save_linked_issues_trace:
  "save_linked_issues entry urls a t w = (counts, w') \<Longrightarrow>
     \<exists>evs. trace w' = trace w @ evs \<and> attempted evs = urls
       \<and> list_all (\<lambda>e. (\<exists>u r. e = Execute u r) \<or> (\<exists>u. e = PrintDbError u)) evs"
proof (induction urls arbitrary: a t w)
  case Nil
  then show ?case by simp
next
  case (Cons u urls)
  from Cons.prems show ?case
    unfolding save_linked_issues_step
    by (auto split: if_splits dest!: Cons.IH)
qed

lemma save_linked_issues_table:
  "save_linked_issues entry urls a t w = ((a', t'), w') \<Longrightarrow>
     \<exists>rows. table w' = table w @ rows
       \<and> a' = a + length rows \<and> t' = t + length rows
       \<and> list_all (\<lambda>r. r = entry\<lparr>row_issue_url := row_issue_url r\<rparr> \<and> row_issue_url r \<in> set urls) rows"
proof (induction urls arbitrary: a t w)
  case Nil
  then show ?case by simp
next
  case (Cons u urls)
  from Cons.prems show ?case
    unfolding save_linked_issues_step
    by (auto split: if_splits dest!: Cons.IH simp: list_all_iff)
qed

lemma save_linked_issues_distinct:
  "save_linked_issues entry urls a t w = (counts, w') \<Longrightarrow>
     distinct (map row_issue_url (table w)) \<Longrightarrow> distinct (map row_issue_url (table w'))"
proof (induction urls arbitrary: a t w)
  case Nil
  then show ?case by simp
next
  case (Cons u urls)
  from Cons.prems show ?case
    unfolding save_linked_issues_step
    by (auto split: if_splits dest!: Cons.IH)
qed

lemma save_linked_issues_keys:
  "save_linked_issues entry urls a t w = (counts, w') \<Longrightarrow>
     \<forall>i<length urls. \<not> db_fault w (executes w + i) \<Longrightarrow>
     row_issue_url ` set (table w') = row_issue_url ` set (table w) \<union> set urls"
proof (induction urls arbitrary: a t w)
  case Nil
  then show ?case by simp
next
  case (Cons u urls)
  have nf: "\<not> db_fault w (executes w)" using Cons.prems(2) by force
  have rest: "\<forall>i<length urls. \<not> db_fault w (Suc (executes w) + i)"
    using Cons.prems(2) by force
  show ?case
  proof (cases "u \<in> row_issue_url ` set (table w)")
    case True
    let ?w1 = "emit (Execute u (Some 0)) (w\<lparr>executes := Suc (executes w)\<rparr>)"
    from Cons.prems(1) nf True have "save_linked_issues entry urls a t ?w1 = (counts, w')"
      unfolding save_linked_issues_step by simp
    from Cons.IH [OF this] rest
    have "row_issue_url ` set (table w') = row_issue_url ` set (table ?w1) \<union> set urls"
      by simp
    with True show ?thesis by auto
  next
    case False
    let ?w1 = "emit (Execute u (Some 1))
             (w\<lparr>executes := Suc (executes w), table := table w @ [entry\<lparr>row_issue_url := u\<rparr>]\<rparr>)"
    from Cons.prems(1) nf False have "save_linked_issues entry urls (Suc a) (Suc t) ?w1 = (counts, w')"
      unfolding save_linked_issues_step by simp
    from Cons.IH [OF this] rest
    have "row_issue_url ` set (table w') = row_issue_url ` set (table ?w1) \<union> set urls"
      by simp
    then show ?thesis by auto
  qed
qed

section \<open>The persistence layer\<close>

lemma filter_key_absent:
  "k \<notin> row_issue_url ` set rows \<Longrightarrow> filter (\<lambda>r. row_issue_url r = k) rows = []"
  by (induction rows) auto

lemma filter_key_present:
  "distinct (map row_issue_url rows) \<Longrightarrow> k \<in> row_issue_url ` set rows \<Longrightarrow>
     length (filter (\<lambda>r. row_issue_url r = k) rows) = 1"
proof (induction rows)
  case Nil
  then show ?case by simp
next
  case (Cons r rows)
  show ?case
  proof (cases "row_issue_url r = k")
    case True
    with Cons.prems(1) have "k \<notin> row_issue_url ` set rows" by auto
    with True show ?thesis by (simp add: filter_key_absent)
  next
    case False
    with Cons show ?thesis by auto
  qed
qed

text \<open>
  Claim C2 (upsert idempotence). Two inserts with the same \<open>issue_url\<close>, on a table whose
  keys are distinct and with no storage fault: the second reports rowcount 0 and leaves the
  table as the first left it, so exactly one row has the key. When the key was new, that
  row is the first record (the second, whatever its other fields, does not overwrite it),
  the first insert reports rowcount 1, and the loop that counts inserts by rowcount counts
  one, not two; when the key was stored before, neither insert changes the table nor counts.
\<close>

theorem upsert_idempotent:
  assumes same_key: "row_issue_url second = row_issue_url first"
    and no_fault: "\<not> db_fault w (executes w)" "\<not> db_fault w (Suc (executes w))"
    and keyed: "distinct (map row_issue_url (table w))"
    and one: "cursor_execute first w = (r1, w1)"
    and two: "cursor_execute second w1 = (r2, w2)"
    and loop: "save_linked_issues first [row_issue_url first, row_issue_url first] a t w = ((a', t'), w')"
  shows "r2 = Inr 0 \<and> table w2 = table w1
    \<and> length (filter (\<lambda>r. row_issue_url r = row_issue_url first) (table w2)) = 1
    \<and> (row_issue_url first \<notin> row_issue_url ` set (table w) \<longrightarrow>
          r1 = Inr 1 \<and> filter (\<lambda>r. row_issue_url r = row_issue_url first) (table w2) = [first]
          \<and> a' = a + 1 \<and> t' = t + 1 \<and> table w' = table w @ [first])
    \<and> (row_issue_url first \<in> row_issue_url ` set (table w) \<longrightarrow>
          r1 = Inr 0 \<and> table w2 = table w \<and> a' = a \<and> t' = t \<and> table w' = table w)"
proof -
  have w1: "w1 = snd (cursor_execute first w)" and r1: "r1 = fst (cursor_execute first w)"
    using one by simp_all
  have w2: "w2 = snd (cursor_execute second w1)" and r2: "r2 = fst (cursor_execute second w1)"
    using two by simp_all
  have t1: "table w1 = (if row_issue_url first \<notin> row_issue_url ` set (table w)
                        then table w @ [first] else table w)"
    using no_fault by (simp add: w1 cursor_execute_table)
  have in1: "row_issue_url second \<in> row_issue_url ` set (table w1)"
    by (simp add: t1 same_key)
  have nf1: "\<not> db_fault w1 (executes w1)"
    using no_fault by (simp add: w1)
  have a: "r2 = Inr 0" using in1 nf1 by (simp add: r2 cursor_execute_rowcount)
  have b: "table w2 = table w1" using in1 by (simp add: w2 cursor_execute_table)
  have d1: "distinct (map row_issue_url (table w1))"
    unfolding w1 by (rule cursor_execute_distinct [OF keyed])
  have c: "length (filter (\<lambda>r. row_issue_url r = row_issue_url first) (table w2)) = 1"
    using filter_key_present [OF d1] in1 by (simp add: b same_key)
  have fresh: "r1 = Inr 1 \<and> filter (\<lambda>r. row_issue_url r = row_issue_url first) (table w2) = [first]
          \<and> a' = a + 1 \<and> t' = t + 1 \<and> table w' = table w @ [first]"
    if "row_issue_url first \<notin> row_issue_url ` set (table w)"
  proof -
    from loop that no_fault have "a' = a + 1 \<and> t' = t + 1 \<and> table w' = table w @ [first]"
      unfolding save_linked_issues_step by (simp del: save_linked_issues.simps(2)) auto
    with that no_fault show ?thesis
      by (simp add: r1 cursor_execute_rowcount b t1 filter_key_absent)
  qed
  have stale: "r1 = Inr 0 \<and> table w2 = table w \<and> a' = a \<and> t' = t \<and> table w' = table w"
    if "row_issue_url first \<in> row_issue_url ` set (table w)"
  proof -
    from loop that no_fault have "a' = a \<and> t' = t \<and> table w' = table w"
      unfolding save_linked_issues_step by (simp del: save_linked_issues.simps(2)) auto
    with that no_fault show ?thesis
      by (simp add: r1 cursor_execute_rowcount b t1)
  qed
  from a b c fresh stale show ?thesis by blast
qed

theorem upsert_idempotent_witness:
  "fst (cursor_execute (sample_row ''i'' ''[]'') quiet_world) = Inr 1
   \<and> fst (cursor_execute (sample_row ''i'' ''x'')
            (snd (cursor_execute (sample_row ''i'' ''[]'') quiet_world))) = Inr 0
   \<and> table (snd (cursor_execute (sample_row ''i'' ''x'')
            (snd (cursor_execute (sample_row ''i'' ''[]'') quiet_world)))) = [sample_row ''i'' ''[]'']
   \<and> fst (save_linked_issues (sample_row ''i'' ''[]'') [''i'', ''i''] 0 0 quiet_world) = (1, 1)"
proof -
  let ?f = "sample_row ''i'' ''[]''" and ?s = "sample_row ''i'' ''x''"
  let ?w1 = "snd (cursor_execute ?f quiet_world)"
  let ?w2 = "snd (cursor_execute ?s ?w1)"
  let ?l = "save_linked_issues ?f [row_issue_url ?f, row_issue_url ?f] 0 0 quiet_world"
  have k: "row_issue_url ?s = row_issue_url ?f" by (simp add: sample_row_def)
  have nf: "\<not> db_fault quiet_world (executes quiet_world)"
    "\<not> db_fault quiet_world (Suc (executes quiet_world))"
    by (simp_all add: quiet_world_def fresh_world_def)
  have d: "distinct (map row_issue_url (table quiet_world))"
    by (simp add: quiet_world_def fresh_world_def)
  have one: "cursor_execute ?f quiet_world = (fst (cursor_execute ?f quiet_world), ?w1)" by simp
  have two: "cursor_execute ?s ?w1 = (fst (cursor_execute ?s ?w1), ?w2)" by simp
  have loop: "?l = ((fst (fst ?l), snd (fst ?l)), snd ?l)" by simp
  have new: "row_issue_url ?f \<notin> row_issue_url ` set (table quiet_world)"
    by (simp add: quiet_world_def fresh_world_def)
  have t: "table quiet_world = []" by (simp add: quiet_world_def fresh_world_def)
  from upsert_idempotent [OF k nf d one two loop] new
  have "fst (cursor_execute ?s ?w1) = Inr 0" "fst (cursor_execute ?f quiet_world) = Inr 1"
    "table ?w2 = table ?w1" "fst (fst ?l) = 0 + 1" "snd (fst ?l) = 0 + 1"
    by blast+
  moreover have "table ?w1 = [?f]"
    using nf new by (simp add: cursor_execute_table t)
  moreover have "row_issue_url ?f = ''i''" by (simp add: sample_row_def)
  ultimately show ?thesis by (simp add: prod_eq_iff)
qed

section \<open>The reference extractor\<close>

text \<open>
  Claim C10 (unescaped repository name). The repository name is spliced into the pattern
  with only the slash escaped, so the dot of \<^verbatim>\<open>owner/my.repo\<close> is the wildcard: the
  description \<^verbatim>\<open>closes owner/myXrepo#7\<close>, which names another repository, yields the URL
  of issue 7 of \<^verbatim>\<open>owner/my.repo\<close>. (For the name \<^verbatim>\<open>owner/myYrepo\<close>, with no special
  character, the same description yields nothing.)
\<close>

theorem unescaped_repo_name_matches_other_repo:
  "get_issues_from_pr (blank_pull\<lparr>body := Some ''closes owner/myXrepo#7''\<rparr>) ''owner/my.repo''
     = Inr [''https://github.com/owner/my.repo/issues/7'']
   \<and> ''owner/myXrepo'' \<noteq> ''owner/my.repo''
   \<and> name_atom CHR ''.'' = Some AnyChar
   \<and> get_issues_from_pr (blank_pull\<lparr>body := Some ''closes owner/myXrepo#7''\<rparr>) ''owner/myYrepo''
     = Inr []"
  by code_simp

text \<open>
  Claim C5 as stated fails: the extractor returns a list and collapses nothing. A reference
  that occurs twice is returned twice.
\<close>

theorem duplicate_references_counterexample:
  "get_issues_from_pr (blank_pull\<lparr>body := Some ''Fixes #42 and closes #42''\<rparr>) ''owner/repo''
     = Inr [''https://github.com/owner/repo/issues/42'', ''https://github.com/owner/repo/issues/42'']
   \<and> \<not> distinct [''https://github.com/owner/repo/issues/42'', ''https://github.com/owner/repo/issues/42'']"
  by code_simp

lemma extractor_example:
  "get_issues_from_pr (blank_pull\<lparr>body := Some ''Fixes #42 and closes owner/repo#7''\<rparr>) ''owner/repo''
     = Inr [''https://github.com/owner/repo/issues/42'', ''https://github.com/owner/repo/issues/7'']"
  by code_simp

text \<open>
  Claim C5, amended. The example of the claim yields exactly the two URLs. In general the
  extractor returns one URL per match, the matches of the bare pattern first and those of
  the scoped pattern after them, each in text order; a missing or empty description yields
  the empty list. Duplicates go away only in the store: after the returned URLs are
  inserted (no storage fault) the keys of the table are distinct and are the old keys
  together with the set of the returned URLs.
\<close>

theorem extractor_lists_every_match:
  "get_issues_from_pr (blank_pull\<lparr>body := Some ''Fixes #42 and closes owner/repo#7''\<rparr>) ''owner/repo''
     = Inr [''https://github.com/owner/repo/issues/42'', ''https://github.com/owner/repo/issues/7'']
   \<and> (body pr_data = Some description \<and> description \<noteq> [] \<and> name_re repo_name = Some name \<longrightarrow>
        get_issues_from_pr pr_data repo_name =
          Inr (map (issue_url_of repo_name) (findall bare_pattern description)
               @ map (issue_url_of repo_name) (findall (scoped_pattern name) description)))
   \<and> (body pr_data = None \<or> body pr_data = Some [] \<longrightarrow> get_issues_from_pr pr_data repo_name = Inr [])
   \<and> (get_issues_from_pr pr_data repo_name = Inr linked_issues
        \<and> save_linked_issues entry linked_issues a t w = (counts, w')
        \<and> distinct (map row_issue_url (table w))
        \<and> (\<forall>i<length linked_issues. \<not> db_fault w (executes w + i)) \<longrightarrow>
        distinct (map row_issue_url (table w'))
        \<and> row_issue_url ` set (table w') = row_issue_url ` set (table w) \<union> set linked_issues)"
  using extractor_example get_issues_from_pr_matches [of pr_data description repo_name name]
    get_issues_from_pr_empty [of pr_data repo_name]
    save_linked_issues_distinct [of entry linked_issues a t w counts w']
    save_linked_issues_keys [of entry linked_issues a t w counts w']
  by blast

theorem extractor_lists_every_match_witness:
  "get_issues_from_pr (blank_pull\<lparr>body := Some ''Fixes #42 and closes #42''\<rparr>) ''owner/repo''
     = Inr (map (issue_url_of ''owner/repo'') [''42'', ''42''])
   \<and> map row_issue_url (table (snd (save_linked_issues (sample_row [] ''[]'')
         (map (issue_url_of ''owner/repo'') [''42'', ''42'']) 0 0 quiet_world)))
     = [''https://github.com/owner/repo/issues/42'']
   \<and> get_issues_from_pr blank_pull ''owner/repo'' = Inr []"
proof -
  let ?pr = "blank_pull\<lparr>body := Some ''Fixes #42 and closes #42''\<rparr>"
  let ?urls = "map (issue_url_of ''owner/repo'') [''42'', ''42'']"
  let ?l = "save_linked_issues (sample_row [] ''[]'') ?urls 0 0 quiet_world"
  obtain name where n: "name_re ''owner/repo'' = Some name"
    by (cases "name_re ''owner/repo''") (simp_all add: name_atom_def)
  have b: "body ?pr = Some ''Fixes #42 and closes #42'' \<and> ''Fixes #42 and closes #42'' \<noteq> []
            \<and> name_re ''owner/repo'' = Some name"
    using n by simp
  have f: "findall bare_pattern ''Fixes #42 and closes #42'' = [''42'', ''42'']"
    by code_simp
  have g: "findall (scoped_pattern (the (name_re ''owner/repo''))) ''Fixes #42 and closes #42'' = []"
    by code_simp
  from extractor_lists_every_match [of ?pr "''Fixes #42 and closes #42''" "''owner/repo''" name] b
  have r: "get_issues_from_pr ?pr ''owner/repo'' = Inr ?urls"
    using f g n by simp
  have l: "?l = (fst ?l, snd ?l)" by simp
  have d: "distinct (map row_issue_url (table quiet_world))"
    "\<forall>i<length ?urls. \<not> db_fault quiet_world (executes quiet_world + i)"
    by (simp_all add: quiet_world_def fresh_world_def)
  from extractor_lists_every_match [of ?pr _ "''owner/repo''" _ ?urls "sample_row [] ''[]''" 0 0
      quiet_world "fst ?l" "snd ?l"] r l d
  have s: "distinct (map row_issue_url (table (snd ?l)))
        \<and> row_issue_url ` set (table (snd ?l)) = row_issue_url ` set (table quiet_world) \<union> set ?urls"
    by blast
  have e: "map row_issue_url (table (snd ?l)) = [''https://github.com/owner/repo/issues/42'']"
    by (simp add: save_linked_issues_step quiet_world_def fresh_world_def issue_url_of_def
        del: save_linked_issues.simps(2))
  have z: "get_issues_from_pr blank_pull ''owner/repo'' = Inr []"
    using extractor_lists_every_match [of blank_pull _ "''owner/repo''"]
    by (simp add: blank_pull_def)
  from r s e z show ?thesis by simp
qed

section \<open>Frames of the network functions\<close>

lemma fetched_refl [simp]: "fetched P w w"
  unfolding fetched_def by (rule exI [of _ 0], rule exI [of _ "[]"]) simp

lemma fetched_trans:
  assumes "fetched P w w1" and "fetched P w1 w2"
  shows "fetched P w w2"
proof -
  from assms(1) obtain n evs where
    1: "w1 = w\<lparr>requests_sent := requests_sent w + n, trace := trace w @ evs\<rparr>" "list_all P evs"
    unfolding fetched_def by blast
  from assms(2) obtain m evs' where
    2: "w2 = w1\<lparr>requests_sent := requests_sent w1 + m, trace := trace w1 @ evs'\<rparr>" "list_all P evs'"
    unfolding fetched_def by blast
  have "w2 = w\<lparr>requests_sent := requests_sent w + (n + m), trace := trace w @ (evs @ evs')\<rparr>"
    by (simp add: 1(1) 2(1))
  moreover have "list_all P (evs @ evs')" using 1(2) 2(2) by simp
  ultimately show ?thesis unfolding fetched_def by blast
qed

lemma fetched_mono:
  "fetched P w w' \<Longrightarrow> (\<And>e. P e \<Longrightarrow> Q e) \<Longrightarrow> fetched Q w w'"
  unfolding fetched_def list_all_iff by blast

lemma fetched_fields:
  assumes "fetched P w w'"
  shows "net w' = net w" "clock w' = clock w" "db_fault w' = db_fault w" "executes w' = executes w"
    "table w' = table w" "durable w' = durable w" "progress_file w' = progress_file w"
    "requests_sent w \<le> requests_sent w'"
  using assms unfolding fetched_def by auto

lemma fetched_trace:
  "fetched P w w' \<Longrightarrow> \<exists>evs. trace w' = trace w @ evs \<and> list_all P evs"
  unfolding fetched_def by auto

lemma fetched_get:
  "P (Get url) \<Longrightarrow> fetched P w (emit (Get url) (w\<lparr>requests_sent := Suc (requests_sent w)\<rparr>))"
  unfolding fetched_def
  by (rule exI [of _ 1], rule exI [of _ "[Get url]"]) (simp add: emit_def)

lemma fetched_sleep: "P (Sleep secs) \<Longrightarrow> fetched P w (sleep secs w)"
  unfolding fetched_def
  by (rule exI [of _ 0], rule exI [of _ "[Sleep secs]"]) (simp add: emit_def sleep_def)

lemma make_request_fetched_snd:
  "make_request url w = Some y \<Longrightarrow> fetched (get_or_sleep url) w (snd y)"
proof (induction rule: make_request.raw_induct [rotated 1, consumes 1])
  case (1 make_request' url w y)
  let ?w1 = "emit (Get url) (w\<lparr>requests_sent := Suc (requests_sent w)\<rparr>)"
  have g: "fetched (get_or_sleep url) w ?w1"
    by (rule fetched_get) (simp add: get_or_sleep_def)
  show ?case
  proof (cases "retryable (net w (requests_sent w) url)")
    case False
    with 1(2) have "snd y = ?w1"
      by (auto simp: retryable_def requests_get_def split: if_splits option.splits)
    with g show ?thesis by simp
  next
    case True
    then obtain secs where s: "make_request' url (sleep secs ?w1) = Some y"
      using 1(2)
      by (auto simp: retryable_def requests_get_def split: if_splits option.splits)
    have "fetched (get_or_sleep url) ?w1 (sleep secs ?w1)"
      by (rule fetched_sleep) (simp add: get_or_sleep_def)
    with g 1(1) [OF s] show ?thesis by (blast intro: fetched_trans)
  qed
qed

lemma make_request_fetched:
  "make_request url w = Some (r, w') \<Longrightarrow> fetched (get_or_sleep url) w w'"
  using make_request_fetched_snd [of url w "(r, w')"] by simp

lemma settles_fetched: "fetched P w w' \<Longrightarrow> settles w \<Longrightarrow> settles w'"
  by (simp add: settles_def fetched_fields)

lemma make_request_total:
  assumes "settles w"
  shows "\<exists>r w'. make_request url w = Some (r, w')"
proof -
  from assms obtain k0 where "\<not> retryable (net w (requests_sent w + k0) url)"
    unfolding settles_def by blast
  define k where "k = (LEAST k. \<not> retryable (net w (requests_sent w + k) url))"
  have a: "\<not> retryable (net w (requests_sent w + k) url)"
    unfolding k_def by (rule LeastI [of "\<lambda>k. \<not> retryable (net w (requests_sent w + k) url)" k0]) fact
  have b: "\<forall>i<k. retryable (net w (requests_sent w + i) url)"
    unfolding k_def using not_less_Least by blast
  from make_request_after_retries [OF b a] show ?thesis by blast
qed

lemma make_request_result_fst:
  "make_request url w = Some y \<Longrightarrow> fst y = Some response \<Longrightarrow> status_code response = 200"
proof (induction rule: make_request.raw_induct [rotated 1, consumes 1])
  case (1 make_request' url w y)
  from 1(2,3) show ?case
    by (auto simp: requests_get_def split: if_splits option.splits dest: 1(1))
qed

lemma make_request_result:
  "make_request url w = Some (Some response, w') \<Longrightarrow> status_code response = 200"
  using make_request_result_fst [of url w "(Some response, w')" response] by simp

section \<open>The paginated collector\<close>

lemma get_mit_repos_loop_success:
  "make_request (search_url query per_page page) w = Some (Some response, w1) \<Longrightarrow>
     get_mit_repos_loop query per_page (page # rest) repos w =
       get_mit_repos_loop query per_page rest (repos @ items_of response) w1"
  by simp

lemma get_mit_repos_loop_failure:
  "make_request (search_url query per_page page) w = Some (None, w1) \<Longrightarrow>
     get_mit_repos_loop query per_page (page # rest) repos w = Some (repos, w1)"
  by simp

lemma slim_get_mit_repos_loop_failure:
  "make_request (slim_search_url query per_page page) w = Some (None, w1) \<Longrightarrow>
     slim_get_mit_repos_loop query per_page (page # rest) repos w = Some ([], w1)"
  by simp

lemma get_mit_repos_loop_total:
  "settles w \<Longrightarrow> \<exists>repos' w'. get_mit_repos_loop query per_page pages repos w = Some (repos', w')"
proof (induction pages arbitrary: repos w)
  case Nil
  then show ?case by simp
next
  case (Cons page rest)
  from make_request_total [OF Cons.prems] obtain r w1 where
    m: "make_request (search_url query per_page page) w = Some (r, w1)" by blast
  from settles_fetched [OF make_request_fetched [OF m] Cons.prems] have s: "settles w1" .
  show ?case
  proof (cases r)
    case None
    with m show ?thesis by simp
  next
    case (Some response)
    with m Cons.IH [OF s] show ?thesis by simp
  qed
qed

lemma get_mit_repos_loop_prefix:
  "get_mit_repos_loop query per_page pages repos w = Some (repos', w') \<Longrightarrow> prefix repos repos'"
proof (induction pages arbitrary: repos w)
  case Nil
  then show ?case by simp
next
  case (Cons page rest)
  from Cons.prems show ?case
    by (auto split: option.splits dest!: Cons.IH dest: append_prefixD)
qed

lemma get_mit_repos_loop_first_try:
  assumes "\<forall>n url. \<not> retryable (net w n url)"
  shows "get_mit_repos_loop query per_page pages repos w =
    (let good = successes (first_answers (net w) (requests_sent w) (search_url query per_page) pages);
         sent = take (Suc (length good)) pages
     in Some (repos @ concat (map items_of good),
              w\<lparr>requests_sent := requests_sent w + length sent,
                trace := trace w @ map (\<lambda>page. Get (search_url query per_page page)) sent\<rparr>))"
  using assms
proof (induction pages arbitrary: repos w)
  case Nil
  then show ?case by (simp add: successes_def)
next
  case (Cons page rest)
  let ?url = "search_url query per_page page"
  let ?w1 = "emit (Get ?url) (w\<lparr>requests_sent := Suc (requests_sent w)\<rparr>)"
  have m: "make_request ?url w = Some (spec_result (net w (requests_sent w) ?url), ?w1)"
    by (rule make_request_terminal) (simp add: Cons.prems)
  show ?case
  proof (cases "status_code (net w (requests_sent w) ?url) = 200")
    case False
    with m show ?thesis
      by (simp add: spec_result_def successes_def emit_def)
  next
    case True
    have "\<forall>n url. \<not> retryable (net ?w1 n url)" using Cons.prems by simp
    from Cons.IH [OF this, of "repos @ items_of (net w (requests_sent w) ?url)"] m True
    show ?thesis
      by (simp add: spec_result_def successes_def Let_def emit_def)
  qed
qed

text \<open>
  Claim C3 as stated fails for the collector of \<^verbatim>\<open>slim/slim.py\<close>: there a failed page
  makes the call return the empty list. In the sample world pages 1 to 4 succeed
  (page 3 with no items) and page 5 fails: that collector returns nothing, the one of
  \<^verbatim>\<open>slim_scraper.py\<close> the four repositories of pages 1, 2 and 4.
\<close>

theorem slim_collector_drops_pages_counterexample:
  "map_option fst (slim_get_mit_repos ''stars:>100'' 100 5 paged_world) = Some []
   \<and> map_option fst (get_mit_repos ''stars:>100'' 100 5 paged_world)
       = Some [named ''a/a'', named ''b/b'', named ''c/c'', named ''d/d'']"
  by code_simp

text \<open>
  Claim C3, amended: it holds for the collector of \<^verbatim>\<open>slim_scraper.py\<close>. For every query,
  page size and page limit: the call returns whenever the network settles; a page the
  fetcher delivers has all its items appended and the loop goes on (also when the page is
  empty); the first page the fetcher fails on ends the loop with what was accumulated;
  what is returned always starts with what was accumulated. When every request is answered
  at the first try, the result is the items, in order, of pages 1, 2, ... up to the page
  before the first failure, and the requests sent are those pages and the failing one.
  The collector of \<^verbatim>\<open>slim/slim.py\<close> returns the empty list when a page fails.
\<close>

theorem get_mit_repos_collects:
  "(settles w \<longrightarrow> (\<exists>repos w'. get_mit_repos query per_page pages w = Some (repos, w')))
   \<and> (make_request (search_url query per_page page) w = Some (Some response, w1) \<longrightarrow>
        get_mit_repos_loop query per_page (page # rest) acc w =
          get_mit_repos_loop query per_page rest (acc @ items_of response) w1)
   \<and> (make_request (search_url query per_page page) w = Some (None, w1) \<longrightarrow>
        get_mit_repos_loop query per_page (page # rest) acc w = Some (acc, w1))
   \<and> (get_mit_repos_loop query per_page ps acc w = Some (repos', w') \<longrightarrow> prefix acc repos')
   \<and> ((\<forall>n url. \<not> retryable (net w n url)) \<longrightarrow>
        get_mit_repos query per_page pages w =
          (let good = successes (first_answers (net w) (requests_sent w)
                                   (search_url query per_page) [1..pages]);
               sent = take (Suc (length good)) [1..pages]
           in Some (concat (map items_of good),
                    w\<lparr>requests_sent := requests_sent w + length sent,
                      trace := trace w @ map (\<lambda>page. Get (search_url query per_page page)) sent\<rparr>)))
   \<and> (make_request (slim_search_url query per_page page) w = Some (None, w1) \<longrightarrow>
        slim_get_mit_repos_loop query per_page (page # rest) acc w = Some ([], w1))"
proof (intro conjI impI)
  assume "settles w"
  then show "\<exists>repos w'. get_mit_repos query per_page pages w = Some (repos, w')"
    unfolding get_mit_repos_def by (rule get_mit_repos_loop_total)
next
  assume "make_request (search_url query per_page page) w = Some (Some response, w1)"
  then show "get_mit_repos_loop query per_page (page # rest) acc w =
          get_mit_repos_loop query per_page rest (acc @ items_of response) w1"
    by (rule get_mit_repos_loop_success)
next
  assume "make_request (search_url query per_page page) w = Some (None, w1)"
  then show "get_mit_repos_loop query per_page (page # rest) acc w = Some (acc, w1)"
    by (rule get_mit_repos_loop_failure)
next
  assume "get_mit_repos_loop query per_page ps acc w = Some (repos', w')"
  then show "prefix acc repos'" by (rule get_mit_repos_loop_prefix)
next
  assume "\<forall>n url. \<not> retryable (net w n url)"
  from get_mit_repos_loop_first_try [OF this, of query per_page "[1..pages]" "[]"]
  show "get_mit_repos query per_page pages w =
          (let good = successes (first_answers (net w) (requests_sent w)
                                   (search_url query per_page) [1..pages]);
               sent = take (Suc (length good)) [1..pages]
           in Some (concat (map items_of good),
                    w\<lparr>requests_sent := requests_sent w + length sent,
                      trace := trace w @ map (\<lambda>page. Get (search_url query per_page page)) sent\<rparr>))"
    by (simp add: get_mit_repos_def)
next
  assume "make_request (slim_search_url query per_page page) w = Some (None, w1)"
  then show "slim_get_mit_repos_loop query per_page (page # rest) acc w = Some ([], w1)"
    by (rule slim_get_mit_repos_loop_failure)
qed

theorem get_mit_repos_collects_witness:
  "map_option fst (get_mit_repos ''stars:>10000'' 100 5 paged_world)
     = Some [named ''a/a'', named ''b/b'', named ''c/c'', named ''d/d'']
   \<and> map_option (\<lambda>r. trace (snd r)) (get_mit_repos ''stars:>10000'' 100 5 paged_world)
     = Some (map (\<lambda>page. Get (search_url ''stars:>10000'' 100 page)) [1, 2, 3, 4, 5])
   \<and> (\<exists>repos w'. get_mit_repos ''stars:>10000'' 100 5 paged_world = Some (repos, w'))"
proof -
  have nr: "\<forall>n url. \<not> retryable (net paged_world n url)"
    by (simp add: paged_world_def fresh_world_def retryable_def blank_response_def)
  then have st: "settles paged_world" by (simp add: settles_def)
  let ?rhs = "let good = successes (first_answers (net paged_world) (requests_sent paged_world)
                                   (search_url ''stars:>10000'' 100) [1..5]);
               sent = take (Suc (length good)) [1..5]
           in Some (concat (map items_of good),
                    paged_world\<lparr>requests_sent := requests_sent paged_world + length sent,
                      trace := trace paged_world
                        @ map (\<lambda>page. Get (search_url ''stars:>10000'' 100 page)) sent\<rparr>)"
  from get_mit_repos_collects [of paged_world "''stars:>10000''" 100 5] nr
  have e: "get_mit_repos ''stars:>10000'' 100 5 paged_world = ?rhs"
    by blast
  have a: "map_option fst ?rhs = Some [named ''a/a'', named ''b/b'', named ''c/c'', named ''d/d'']"
    by code_simp
  have b: "map_option (\<lambda>r. trace (snd r)) ?rhs
             = Some (map (\<lambda>page. Get (search_url ''stars:>10000'' 100 page)) [1, 2, 3, 4, 5])"
    by code_simp
  from get_mit_repos_collects [of paged_world "''stars:>10000''" 100 5] st
  have c: "\<exists>repos w'. get_mit_repos ''stars:>10000'' 100 5 paged_world = Some (repos, w')"
    by blast
  from a b c show ?thesis unfolding e by blast
qed

section \<open>One pull request\<close>

lemma conn_commit_simps [simp]:
  "trace (conn_commit w) = trace w @ [Commit]"
  "net (conn_commit w) = net w"
  "clock (conn_commit w) = clock w"
  "db_fault (conn_commit w) = db_fault w"
  "requests_sent (conn_commit w) = requests_sent w"
  "executes (conn_commit w) = executes w"
  "table (conn_commit w) = table w"
  "durable (conn_commit w) = table w"
  "progress_file (conn_commit w) = progress_file w"
  by (simp_all add: conn_commit_def)

lemma after_pr_simps [simp]:
  "net (after_pr n w) = net w"
  "clock (after_pr n w) = clock w"
  "db_fault (after_pr n w) = db_fault w"
  "requests_sent (after_pr n w) = requests_sent w"
  "executes (after_pr n w) = executes w"
  "table (after_pr n w) = table w"
  "progress_file (after_pr n w) = progress_file w"
  by (simp_all add: after_pr_def)

lemma after_pr_trace:
  "trace (after_pr n w) =
     trace w @ (if n > 0 \<and> n mod 10 = 0 then [Commit] else []) @ [Sleep (1 / 2)]"
  by (simp add: after_pr_def)

lemma process_pr_no_issues:
  "get_issues_from_pr pr repo_name = Inr [] \<Longrightarrow>
     process_pr repo_name languages pr a t w = Some (Inr (a, t), after_pr a w)"
  by (simp add: process_pr_def after_pr_def)

lemma process_pr_saved:
  assumes "get_issues_from_pr pr repo_name = Inr linked" and "linked \<noteq> []"
    and "get_affected_files (html_url pr) w = Some (Inr files, w1)"
    and "save_linked_issues (pr_entry repo_name languages pr files) linked a t w1 = ((a', t'), w2)"
  shows "process_pr repo_name languages pr a t w = Some (Inr (a', t'), after_pr a' w2)"
  using assms by (simp add: process_pr_def save_pr_def pr_entry_def after_pr_def Let_def)

lemma process_pr_index_error:
  assumes "get_issues_from_pr pr repo_name = Inr linked" and "linked \<noteq> []"
    and "get_affected_files (html_url pr) w = Some (Inl e, w1)"
  shows "process_pr repo_name languages pr a t w = Some (Inl e, w1)"
  using assms by (simp add: process_pr_def save_pr_def Let_def)

lemma process_pr_pattern_error:
  "get_issues_from_pr pr repo_name = Inl e \<Longrightarrow>
     process_pr repo_name languages pr a t w = Some (Inl e, w)"
  by (simp add: process_pr_def)

lemma get_affected_files_empty:
  assumes "pr_url \<noteq> []" and "files_url_of pr_url = Inr files_url"
    and "make_request files_url w = Some (r, w1)"
    and "r = None \<or> (\<exists>response. r = Some response \<and> json_files response = [])"
  shows "get_affected_files pr_url w = Some (Inr ''[]'', w1)"
  using assms by (auto simp: get_affected_files_def)

lemma get_affected_files_total:
  assumes "settles w"
  shows "\<exists>r w'. get_affected_files pr_url w = Some (r, w')"
proof (cases "pr_url = []")
  case True
  then show ?thesis by (simp add: get_affected_files_def)
next
  case False
  show ?thesis
  proof (cases "files_url_of pr_url")
    case (Inl e)
    with False show ?thesis by (simp add: get_affected_files_def)
  next
    case (Inr u)
    from make_request_total [OF assms, of u] obtain r w1 where "make_request u w = Some (r, w1)"
      by blast
    with False Inr show ?thesis
      by (cases r) (simp_all add: get_affected_files_def)
  qed
qed

lemma get_affected_files_ok:
  assumes "get_affected_files pr_url w = Some (r, w')"
    and "pr_url = [] \<or> files_url_of pr_url = Inr files_url"
  shows "\<exists>files. r = Inr files"
  using assms
  by (auto simp: get_affected_files_def split: if_splits sum.splits option.splits)

text \<open>The events of fetching the changed files of the pull request at \<open>pr_url\<close>.\<close>

lemma get_affected_files_fetched:
  assumes "get_affected_files pr_url w = Some (r, w')"
  shows "fetched (\<lambda>e. \<exists>u. files_url_of pr_url = Inr u \<and> get_or_sleep u e) w w'"
proof (cases "pr_url = [] \<or> (\<exists>e. files_url_of pr_url = Inl e)")
  case True
  with assms have "w' = w" by (auto simp: get_affected_files_def split: if_splits)
  then show ?thesis by simp
next
  case False
  then obtain u where u: "files_url_of pr_url = Inr u" and ne: "pr_url \<noteq> []"
    by (cases "files_url_of pr_url") auto
  with assms obtain x where "make_request u w = Some (x, w')"
    by (auto simp: get_affected_files_def split: option.splits if_splits)
  from make_request_fetched [OF this] show ?thesis
    by (rule fetched_mono) (use u in blast)
qed

lemma commit_url_missing:
  "\<not> truthy commit_sha \<Longrightarrow> commit_url repo_name commit_sha = None"
  by (auto simp: commit_url_def truthy_def split: option.splits)

lemma sha_of_missing:
  "r = None \<or> (\<exists>c. r = Some c \<and> \<not> truthy (sha c)) \<Longrightarrow> \<not> truthy (sha_of r)"
  by (auto simp: sha_of_def truthy_def)

text \<open>
  Claim C9 (partial-data tolerance), for one turn of the loop over the pull requests of
  \<^verbatim>\<open>populate_db_from_prs\<close>. A pull request that links no issue stores nothing: the turn
  only runs the commit check and the delay. A pull request with linked issues whose file
  list cannot be fetched, or comes back empty, is still stored: the turn ends normally,
  each row it adds is the row of the pull request with \<open>affected_files\<close> the text \<^verbatim>\<open>[]\<close>,
  and without storage faults every linked issue has its row afterwards. When the network
  settles the turn returns a count, not an error (the file-list URL must be formed: an
  \<open>html_url\<close> naming github.com has at least four parts). A missing base or head commit
  makes the before or after URL of the row \<open>None\<close>.
\<close>

theorem partial_data_tolerated:
  "(get_issues_from_pr pr repo_name = Inr [] \<longrightarrow>
      process_pr repo_name languages pr a t w = Some (Inr (a, t), after_pr a w))
   \<and> (get_issues_from_pr pr repo_name = Inr linked \<and> linked \<noteq> [] \<and> html_url pr \<noteq> []
       \<and> files_url_of (html_url pr) = Inr files_url \<and> make_request files_url w = Some (r, w1)
       \<and> (r = None \<or> (\<exists>response. r = Some response \<and> json_files response = [])) \<longrightarrow>
      (\<exists>a' t' w2 rows.
         process_pr repo_name languages pr a t w = Some (Inr (a', t'), after_pr a' w2)
         \<and> save_linked_issues (pr_entry repo_name languages pr ''[]'') linked a t w1 = ((a', t'), w2)
         \<and> table (after_pr a' w2) = table w @ rows
         \<and> list_all (\<lambda>row. row = (pr_entry repo_name languages pr ''[]'')
                                   \<lparr>row_issue_url := row_issue_url row\<rparr>) rows
         \<and> ((\<forall>i<length linked. \<not> db_fault w (executes w + i)) \<longrightarrow>
              row_issue_url ` set (table w @ rows) = row_issue_url ` set (table w) \<union> set linked)))
   \<and> (settles w \<and> get_issues_from_pr pr repo_name = Inr linked
       \<and> (html_url pr = [] \<or> files_url_of (html_url pr) = Inr files_url) \<longrightarrow>
      (\<exists>counts w'. process_pr repo_name languages pr a t w = Some (Inr counts, w')))
   \<and> (base pr = None \<or> (\<exists>c. base pr = Some c \<and> \<not> truthy (sha c)) \<longrightarrow>
        row_before_code_url (pr_entry repo_name languages pr files) = None)
   \<and> (head pr = None \<or> (\<exists>c. head pr = Some c \<and> \<not> truthy (sha c)) \<longrightarrow>
        row_after_code_url (pr_entry repo_name languages pr files) = None)"
proof (intro conjI impI)
  assume "get_issues_from_pr pr repo_name = Inr []"
  then show "process_pr repo_name languages pr a t w = Some (Inr (a, t), after_pr a w)"
    by (rule process_pr_no_issues)
next
  assume h: "get_issues_from_pr pr repo_name = Inr linked \<and> linked \<noteq> [] \<and> html_url pr \<noteq> []
       \<and> files_url_of (html_url pr) = Inr files_url \<and> make_request files_url w = Some (r, w1)
       \<and> (r = None \<or> (\<exists>response. r = Some response \<and> json_files response = []))"
  let ?entry = "pr_entry repo_name languages pr ''[]''"
  from h have gf: "get_affected_files (html_url pr) w = Some (Inr ''[]'', w1)"
    by (intro get_affected_files_empty) blast+
  from h have f: "fetched (get_or_sleep files_url) w w1"
    by (intro make_request_fetched) blast
  obtain a' t' w2 where sv: "save_linked_issues ?entry linked a t w1 = ((a', t'), w2)"
    by (metis prod.exhaust)
  from h gf sv have p: "process_pr repo_name languages pr a t w = Some (Inr (a', t'), after_pr a' w2)"
    by (intro process_pr_saved) blast+
  from save_linked_issues_table [OF sv] obtain rows where
    rows: "table w2 = table w1 @ rows"
      "list_all (\<lambda>r. r = ?entry\<lparr>row_issue_url := row_issue_url r\<rparr> \<and> row_issue_url r \<in> set linked) rows"
    by blast
  have tb: "table (after_pr a' w2) = table w @ rows"
    using rows(1) fetched_fields(5) [OF f] by simp
  have la: "list_all (\<lambda>row. row = ?entry\<lparr>row_issue_url := row_issue_url row\<rparr>) rows"
    using rows(2) by (simp add: list_all_iff)
  have keys: "row_issue_url ` set (table w @ rows) = row_issue_url ` set (table w) \<union> set linked"
    if "\<forall>i<length linked. \<not> db_fault w (executes w + i)"
  proof -
    from that have "\<forall>i<length linked. \<not> db_fault w1 (executes w1 + i)"
      using fetched_fields(3,4) [OF f] by simp
    from save_linked_issues_keys [OF sv this] show ?thesis
      using rows(1) fetched_fields(5) [OF f] by simp
  qed
  from p sv tb la keys
  show "\<exists>a' t' w2 rows.
         process_pr repo_name languages pr a t w = Some (Inr (a', t'), after_pr a' w2)
         \<and> save_linked_issues ?entry linked a t w1 = ((a', t'), w2)
         \<and> table (after_pr a' w2) = table w @ rows
         \<and> list_all (\<lambda>row. row = ?entry\<lparr>row_issue_url := row_issue_url row\<rparr>) rows
         \<and> ((\<forall>i<length linked. \<not> db_fault w (executes w + i)) \<longrightarrow>
              row_issue_url ` set (table w @ rows) = row_issue_url ` set (table w) \<union> set linked)"
    by blast
next
  assume h: "settles w \<and> get_issues_from_pr pr repo_name = Inr linked
       \<and> (html_url pr = [] \<or> files_url_of (html_url pr) = Inr files_url)"
  show "\<exists>counts w'. process_pr repo_name languages pr a t w = Some (Inr counts, w')"
  proof (cases "linked = []")
    case True
    with h show ?thesis by (simp add: process_pr_no_issues)
  next
    case False
    from h get_affected_files_total obtain x w1 where
      g: "get_affected_files (html_url pr) w = Some (x, w1)" by blast
    from get_affected_files_ok [OF g] h obtain fs where "x = Inr fs" by blast
    with g have g': "get_affected_files (html_url pr) w = Some (Inr fs, w1)" by simp
    obtain a' t' w2 where
      "save_linked_issues (pr_entry repo_name languages pr fs) linked a t w1 = ((a', t'), w2)"
      by (metis prod.exhaust)
    from process_pr_saved [OF _ False g' this] h show ?thesis by blast
  qed
next
  assume "base pr = None \<or> (\<exists>c. base pr = Some c \<and> \<not> truthy (sha c))"
  then show "row_before_code_url (pr_entry repo_name languages pr files) = None"
    by (simp add: pr_entry_def commit_url_missing sha_of_missing)
next
  assume "head pr = None \<or> (\<exists>c. head pr = Some c \<and> \<not> truthy (sha c))"
  then show "row_after_code_url (pr_entry repo_name languages pr files) = None"
    by (simp add: pr_entry_def commit_url_missing sha_of_missing)
qed

theorem partial_data_tolerated_witness:
  "map_option (\<lambda>r. (fst r, table (snd r))) (process_pr ''o/r'' ''[]'' sample_pr 0 0 failing_world)
     = Some (Inr (1, 1),
        [\<lparr>row_issue_url = ''https://github.com/o/r/issues/1'', row_repo_name = ''o/r'',
          row_pull_request_url = ''https://github.com/o/r/pull/5'', row_languages = ''[]'',
          row_before_code_url = None,
          row_after_code_url = Some ''https://github.com/o/r/commit/abc'',
          row_affected_files = ''[]''\<rparr>])
   \<and> process_pr ''o/r'' ''[]'' blank_pull 0 0 failing_world = Some (Inr (0, 0), after_pr 0 failing_world)
   \<and> (\<exists>counts w'. process_pr ''o/r'' ''[]'' sample_pr 0 0 failing_world = Some (Inr counts, w'))"
proof -
  let ?u = "''https://api.github.com/repos/o/r/pulls/5/files''"
  let ?w1 = "emit (Get ?u) (failing_world\<lparr>requests_sent := Suc (requests_sent failing_world)\<rparr>)"
  let ?e = "pr_entry ''o/r'' ''[]'' sample_pr ''[]''"
  have gi: "get_issues_from_pr sample_pr ''o/r'' = Inr [''https://github.com/o/r/issues/1'']"
    by code_simp
  have fu: "files_url_of (html_url sample_pr) = Inr ?u"
    by code_simp
  have nr: "\<not> retryable (net failing_world (requests_sent failing_world) ?u)"
    by (simp add: failing_world_def fresh_world_def retryable_def blank_response_def)
  have mr: "make_request ?u failing_world = Some (None, ?w1)"
    using make_request_terminal [OF nr]
    by (simp add: spec_result_def failing_world_def fresh_world_def blank_response_def)
  have hu: "html_url sample_pr \<noteq> []" by (simp add: sample_pr_def)
  have st: "settles failing_world"
    by (simp add: settles_def failing_world_def fresh_world_def retryable_def blank_response_def)
  have b: "base sample_pr = None" by (simp add: sample_pr_def)
  note T = partial_data_tolerated [where pr = sample_pr and repo_name = "''o/r''"
      and linked = "[''https://github.com/o/r/issues/1'']" and files_url = ?u
      and w = failing_world and r = None and ?w1.0 = ?w1 and languages = "''[]''"
      and a = 0 and t = 0 and files = "''[]''"]
  from T gi fu mr hu obtain a' t' w2 where
    p: "process_pr ''o/r'' ''[]'' sample_pr 0 0 failing_world = Some (Inr (a', t'), after_pr a' w2)"
    and sv: "save_linked_issues ?e [''https://github.com/o/r/issues/1''] 0 0 ?w1 = ((a', t'), w2)"
    by blast
  from T b have bn: "row_before_code_url ?e = None" by blast
  have e: "?e = \<lparr>row_issue_url = [], row_repo_name = ''o/r'',
          row_pull_request_url = ''https://github.com/o/r/pull/5'', row_languages = ''[]'',
          row_before_code_url = None,
          row_after_code_url = Some ''https://github.com/o/r/commit/abc'',
          row_affected_files = ''[]''\<rparr>"
    using bn by (simp add: pr_entry_def sample_pr_def commit_url_def sha_of_def)
  from sv have "a' = 1 \<and> t' = 1 \<and> table w2 = [?e\<lparr>row_issue_url := ''https://github.com/o/r/issues/1''\<rparr>]"
    unfolding save_linked_issues_step
    by (auto simp: failing_world_def fresh_world_def simp del: save_linked_issues.simps(2))
  with p e have one: "map_option (\<lambda>r. (fst r, table (snd r)))
       (process_pr ''o/r'' ''[]'' sample_pr 0 0 failing_world)
     = Some (Inr (1, 1),
        [\<lparr>row_issue_url = ''https://github.com/o/r/issues/1'', row_repo_name = ''o/r'',
          row_pull_request_url = ''https://github.com/o/r/pull/5'', row_languages = ''[]'',
          row_before_code_url = None,
          row_after_code_url = Some ''https://github.com/o/r/commit/abc'',
          row_affected_files = ''[]''\<rparr>])"
    by simp
  have gb: "get_issues_from_pr blank_pull ''o/r'' = Inr []"
    by (simp add: get_issues_from_pr_def blank_pull_def)
  from partial_data_tolerated [where pr = blank_pull and repo_name = "''o/r''"
      and w = failing_world and languages = "''[]''" and a = 0 and t = 0] gb
  have two: "process_pr ''o/r'' ''[]'' blank_pull 0 0 failing_world = Some (Inr (0, 0), after_pr 0 failing_world)"
    by blast
  from T st gi fu
  have three: "\<exists>counts w'. process_pr ''o/r'' ''[]'' sample_pr 0 0 failing_world = Some (Inr counts, w')"
    by blast
  from one two three show ?thesis by blast
qed

section \<open>Commit batching\<close>

lemma max_uncommitted_db_events: "max_uncommitted (db_events evs) n = max_uncommitted evs n"
  by (induction evs n rule: max_uncommitted.induct) simp_all

text \<open>
  Claim C7 (commit batching) fails on the code. The commit check runs once per pull
  request and asks whether the repository's count is a multiple of 10 at that moment. In
  the sample run the first pull request adds 6 rows and the second 6 more: the count goes
  6, 12 and is never a multiple of 10 when checked, so no commit follows the tenth insert;
  the only commit is the final one, and up to 12 inserted rows are uncommitted at once.
\<close>

theorem commit_check_skips_batches:

  "map_option (\<lambda>r. (fst r, db_events (trace (snd r)), length (durable (snd r))))
     (populate_db_from_prs [named ''o/r''] batch_world)
   = Some (Inr 12,
       [Execute ''https://github.com/o/r/issues/1'' (Some 1),
        Execute ''https://github.com/o/r/issues/2'' (Some 1),
        Execute ''https://github.com/o/r/issues/3'' (Some 1),
        Execute ''https://github.com/o/r/issues/4'' (Some 1),
        Execute ''https://github.com/o/r/issues/5'' (Some 1),
        Execute ''https://github.com/o/r/issues/6'' (Some 1),
        Execute ''https://github.com/o/r/issues/7'' (Some 1),
        Execute ''https://github.com/o/r/issues/8'' (Some 1),
        Execute ''https://github.com/o/r/issues/9'' (Some 1),
        Execute ''https://github.com/o/r/issues/10'' (Some 1),
        Execute ''https://github.com/o/r/issues/11'' (Some 1),
        Execute ''https://github.com/o/r/issues/12'' (Some 1),
        Commit], 12)
   \<and> max_uncommitted
        [Execute ''https://github.com/o/r/issues/1'' (Some 1),
         Execute ''https://github.com/o/r/issues/2'' (Some 1),
         Execute ''https://github.com/o/r/issues/3'' (Some 1),
         Execute ''https://github.com/o/r/issues/4'' (Some 1),
         Execute ''https://github.com/o/r/issues/5'' (Some 1),
         Execute ''https://github.com/o/r/issues/6'' (Some 1),
         Execute ''https://github.com/o/r/issues/7'' (Some 1),
         Execute ''https://github.com/o/r/issues/8'' (Some 1),
         Execute ''https://github.com/o/r/issues/9'' (Some 1),
         Execute ''https://github.com/o/r/issues/10'' (Some 1),
         Execute ''https://github.com/o/r/issues/11'' (Some 1),
         Execute ''https://github.com/o/r/issues/12'' (Some 1),
         Commit] 0 = 12"
  by code_simp

section \<open>Storage errors\<close>

lemma failed_append [simp]: "failed (xs @ ys) = failed xs @ failed ys"
  by (induction xs rule: failed.induct) auto

lemma logged_append [simp]: "logged (xs @ ys) = logged xs @ logged ys"
  by (induction xs rule: logged.induct) auto

lemma quiet_events:
  "list_all (\<lambda>e. (\<exists>u. e = Get u) \<or> (\<exists>s. e = Sleep s) \<or> e = Commit) evs \<Longrightarrow>
     attempted evs = [] \<and> failed evs = [] \<and> logged evs = []"
  by (induction evs) auto

lemma get_or_sleep_cases: "get_or_sleep u e \<Longrightarrow> e = Get u \<or> (\<exists>s. e = Sleep s)"
  by (cases e) (simp_all add: get_or_sleep_def)

lemma get_or_sleep_quiet:
  "list_all (\<lambda>e. \<exists>u. files_url_of p = Inr u \<and> get_or_sleep u e) evs \<Longrightarrow>
     list_all (\<lambda>e. (\<exists>u. e = Get u) \<or> (\<exists>s. e = Sleep s) \<or> e = Commit) evs"
  unfolding list_all_iff using get_or_sleep_cases by blast

lemma save_linked_issues_logged:
  "save_linked_issues entry urls a t w = (counts, w') \<Longrightarrow>
     \<exists>evs. trace w' = trace w @ evs \<and> attempted evs = urls \<and> failed evs = logged evs"
proof (induction urls arbitrary: a t w)
  case Nil
  then show ?case by simp
next
  case (Cons u urls)
  from Cons.prems show ?case
    unfolding save_linked_issues_step
    by (auto split: if_splits dest!: Cons.IH)
qed

lemma process_pr_attempts:
  assumes "process_pr repo_name languages pr a t w = Some (res, w')"
  shows "(\<exists>e. res = Inl e \<and> e \<noteq> SqliteError)
    \<or> (\<exists>counts evs. res = Inr counts \<and> trace w' = trace w @ evs
          \<and> attempted evs = linked_of repo_name pr \<and> failed evs = logged evs)"
proof (cases "get_issues_from_pr pr repo_name")
  case (Inl e)
  with assms have "res = Inl e" "e = PatternNotModelled"
    by (auto simp: process_pr_pattern_error get_issues_from_pr_def split: option.splits if_splits)
  then show ?thesis by simp
next
  case (Inr linked)
  show ?thesis
  proof (cases "linked = []")
    case True
    with Inr assms have "res = Inr (a, t)" "w' = after_pr a w"
      by (simp_all add: process_pr_no_issues)
    with Inr True show ?thesis
      by (simp add: after_pr_trace linked_of_def)
  next
    case False
    from assms Inr False obtain x w1 where
      g: "get_affected_files (html_url pr) w = Some (x, w1)"
      by (auto simp: process_pr_def save_pr_def Let_def split: option.splits)
    show ?thesis
    proof (cases x)
      case (Inl e)
      with g have "e = IndexError"
        by (auto simp: get_affected_files_def files_url_of_def from_end_def Let_def
            split: if_splits sum.splits option.splits)
      moreover from process_pr_index_error [OF Inr False] g Inl assms have "res = Inl e"
        by simp
      ultimately show ?thesis by simp
    next
      case (Inr files)
      obtain a' t' w2 where
        sv: "save_linked_issues (pr_entry repo_name languages pr files) linked a t w1 = ((a', t'), w2)"
        by (metis prod.exhaust)
      from process_pr_saved [OF \<open>get_issues_from_pr pr repo_name = Inr linked\<close> False _ sv] g Inr assms
      have r: "res = Inr (a', t')" "w' = after_pr a' w2" by simp_all
      from get_affected_files_fetched [OF g] obtain evs1 where
        e1: "trace w1 = trace w @ evs1"
          "list_all (\<lambda>e. \<exists>u. files_url_of (html_url pr) = Inr u \<and> get_or_sleep u e) evs1"
        using fetched_trace by blast
      from quiet_events [OF get_or_sleep_quiet [OF e1(2)]]
      have q1: "attempted evs1 = []" "failed evs1 = []" "logged evs1 = []" by simp_all
      from save_linked_issues_logged [OF sv] obtain evs2 where
        e2: "trace w2 = trace w1 @ evs2" "attempted evs2 = linked" "failed evs2 = logged evs2"
        by blast
      have "trace w' = trace w @ (evs1 @ evs2
              @ (if a' > 0 \<and> a' mod 10 = 0 then [Commit] else []) @ [Sleep (1 / 2)])"
        by (simp add: r after_pr_trace e1 e2)
      moreover have "attempted (evs1 @ evs2
              @ (if a' > 0 \<and> a' mod 10 = 0 then [Commit] else []) @ [Sleep (1 / 2)]) = linked"
        by (simp add: q1 e2)
      moreover have "failed (evs1 @ evs2
              @ (if a' > 0 \<and> a' mod 10 = 0 then [Commit] else []) @ [Sleep (1 / 2)])
           = logged (evs1 @ evs2
              @ (if a' > 0 \<and> a' mod 10 = 0 then [Commit] else []) @ [Sleep (1 / 2)])"
        by (simp add: q1 e2)
      ultimately show ?thesis
        using r \<open>get_issues_from_pr pr repo_name = Inr linked\<close> by (auto simp: linked_of_def)
    qed
  qed
qed

lemma process_prs_attempts:
  "process_prs repo_name languages prs a t w = Some (res, w') \<Longrightarrow>
     (\<exists>e. res = Inl e \<and> e \<noteq> SqliteError)
     \<or> (\<exists>counts evs. res = Inr counts \<and> trace w' = trace w @ evs
          \<and> attempted evs = concat (map (linked_of repo_name) prs) \<and> failed evs = logged evs)"
proof (induction prs arbitrary: a t w)
  case Nil
  then have "res = Inr (a, t) \<and> trace w' = trace w @ [] \<and> attempted [] = concat (map (linked_of repo_name) [])
      \<and> failed [] = logged []"
    by auto
  then show ?case by blast
next
  case (Cons pr prs)
  from Cons.prems obtain x w1 where
    p: "process_pr repo_name languages pr a t w = Some (x, w1)"
    by (auto split: option.splits)
  from process_pr_attempts [OF p] show ?case
  proof
    assume "\<exists>e. x = Inl e \<and> e \<noteq> SqliteError"
    with p Cons.prems show ?thesis by auto
  next
    assume "\<exists>counts evs. x = Inr counts \<and> trace w1 = trace w @ evs
          \<and> attempted evs = linked_of repo_name pr \<and> failed evs = logged evs"
    then obtain a1 t1 evs where
      x: "x = Inr (a1, t1)" and e: "trace w1 = trace w @ evs"
        "attempted evs = linked_of repo_name pr" "failed evs = logged evs"
      by auto
    from p x Cons.prems have "process_prs repo_name languages prs a1 t1 w1 = Some (res, w')"
      by simp
    from Cons.IH [OF this] show ?thesis
    proof
      assume "\<exists>e. res = Inl e \<and> e \<noteq> SqliteError"
      then show ?thesis by blast
    next
      assume "\<exists>counts evs. res = Inr counts \<and> trace w' = trace w1 @ evs
          \<and> attempted evs = concat (map (linked_of repo_name) prs) \<and> failed evs = logged evs"
      then obtain counts evs' where
        "res = Inr counts" "trace w' = trace w1 @ evs'"
        "attempted evs' = concat (map (linked_of repo_name) prs)" "failed evs' = logged evs'"
        by blast
      with e have "res = Inr counts \<and> trace w' = trace w @ (evs @ evs')
          \<and> attempted (evs @ evs') = concat (map (linked_of repo_name) (pr # prs))
          \<and> failed (evs @ evs') = logged (evs @ evs')"
        by simp
      then show ?thesis by blast
    qed
  qed
qed

lemma process_pr_net:
  assumes "process_pr repo_name languages pr a t w = Some (res, w')"
  shows "net w' = net w"
proof (cases "get_issues_from_pr pr repo_name")
  case (Inl e)
  with assms show ?thesis by (simp add: process_pr_pattern_error)
next
  case (Inr linked)
  show ?thesis
  proof (cases "linked = []")
    case True
    with Inr assms show ?thesis by (auto simp: process_pr_no_issues)
  next
    case False
    from assms Inr False obtain x w1 where
      g: "get_affected_files (html_url pr) w = Some (x, w1)"
      by (auto simp: process_pr_def save_pr_def Let_def split: option.splits)
    have n1: "net w1 = net w" using fetched_fields(1) [OF get_affected_files_fetched [OF g]] .
    show ?thesis
    proof (cases x)
      case (Inl e)
      from process_pr_index_error [OF Inr False] g Inl assms n1 show ?thesis by simp
    next
      case (Inr files)
      obtain a' t' w2 where
        sv: "save_linked_issues (pr_entry repo_name languages pr files) linked a t w1 = ((a', t'), w2)"
        by (metis prod.exhaust)
      from process_pr_saved [OF \<open>get_issues_from_pr pr repo_name = Inr linked\<close> False _ sv] g Inr assms
      have "w' = after_pr a' w2" by simp
      with save_linked_issues_frame [OF sv] n1 show ?thesis by simp
    qed
  qed
qed

lemma process_pr_total:
  assumes "settles w" and "readable repo_name pr"
  shows "\<exists>counts w'. process_pr repo_name languages pr a t w = Some (Inr counts, w')"
proof -
  from assms(2) obtain linked where l: "get_issues_from_pr pr repo_name = Inr linked"
    by (auto simp: readable_def split: sum.splits)
  from assms(2) have "html_url pr = [] \<or> (\<exists>u. files_url_of (html_url pr) = Inr u)"
    by (auto simp: readable_def split: sum.splits)
  then obtain u where u: "html_url pr = [] \<or> files_url_of (html_url pr) = Inr u" by blast
  show ?thesis
  proof (cases "linked = []")
    case True
    with l show ?thesis by (simp add: process_pr_no_issues)
  next
    case False
    from get_affected_files_total [OF assms(1)] obtain x w1 where
      g: "get_affected_files (html_url pr) w = Some (x, w1)" by blast
    from get_affected_files_ok [OF g u] obtain fs where "x = Inr fs" by blast
    with g have g': "get_affected_files (html_url pr) w = Some (Inr fs, w1)" by simp
    obtain a' t' w2 where
      "save_linked_issues (pr_entry repo_name languages pr fs) linked a t w1 = ((a', t'), w2)"
      by (metis prod.exhaust)
    from process_pr_saved [OF l False g' this] show ?thesis by blast
  qed
qed

lemma process_prs_total:
  "settles w \<Longrightarrow> list_all (readable repo_name) prs \<Longrightarrow>
     \<exists>counts w'. process_prs repo_name languages prs a t w = Some (Inr counts, w')"
proof (induction prs arbitrary: a t w)
  case Nil
  then show ?case by simp
next
  case (Cons pr prs)
  from Cons.prems have r: "readable repo_name pr" and rs: "list_all (readable repo_name) prs"
    by simp_all
  from process_pr_total [OF Cons.prems(1) r] obtain a1 t1 w1 where
    p: "process_pr repo_name languages pr a t w = Some (Inr (a1, t1), w1)" by force
  from process_pr_net [OF p] Cons.prems(1) have "settles w1" by (simp add: settles_def)
  from Cons.IH [OF this rs] p show ?case by simp
qed

section \<open>Runs of the issue-driven script\<close>

lemma slim_run:
  "map_option (\<lambda>r. (fst r, attempted (trace (snd r)), requested (trace (snd r))))
     (populate_db [named ''o/r''] slim_world)
   = Some (Inr (), [''https://github.com/o/r/issues/1'', ''https://github.com/o/r/issues/2''],
       [''https://api.github.com/repos/o/r/issues?state=closed&per_page=100'',
        ''https://api.github.com/repos/o/r/issues/1/timeline?per_page=100'',
        ''https://api.github.com/repos/o/r/pulls/5'',
        ''https://api.github.com/repos/o/r/languages'',
        ''https://api.github.com/repos/o/r/pull/5/files'',
        ''https://api.github.com/repos/o/r/issues/2/timeline?per_page=100'',
        ''https://api.github.com/repos/o/r/pulls/5'',
        ''https://api.github.com/repos/o/r/languages'',
        ''https://api.github.com/repos/o/r/pull/5/files''])"
  by code_simp

lemma get_or_sleep_plain:
  "fetched (get_or_sleep u) w w' \<Longrightarrow>
     fetched (\<lambda>e. (\<exists>u. e = Get u) \<or> (\<exists>s. e = Sleep s) \<or> e = Commit) w w'"
  by (erule fetched_mono) (use get_or_sleep_cases in blast)

lemma get_languages_fetched:
  assumes "get_languages repo_name w = Some (languages, w')"
  shows "fetched (get_or_sleep (languages_url repo_name)) w w'"
proof -
  from assms obtain r where "make_request (languages_url repo_name) w = Some (r, w')"
    unfolding get_languages_def by (cases "make_request (languages_url repo_name) w") (auto split: option.splits)
  then show ?thesis by (rule make_request_fetched)
qed

lemma get_code_before_after_fetched:
  assumes "get_code_before_after pr_url w = Some (r, w')"
  shows "fetched (\<lambda>e. (\<exists>u. e = Get u) \<or> (\<exists>s. e = Sleep s) \<or> e = Commit) w w'"
proof (cases "pr_url = []")
  case True
  with assms show ?thesis by (simp add: get_code_before_after_def)
next
  case False
  let ?u = "replace ''/pull/'' ''/pulls/'' (replace ''github.com'' ''api.github.com/repos'' pr_url)"
  from assms False obtain x where "make_request ?u w = Some (x, w')"
    unfolding get_code_before_after_def Let_def
    by (cases "make_request ?u w") (auto split: option.splits if_splits)
  then show ?thesis by (intro get_or_sleep_plain make_request_fetched)
qed

lemma slim_get_affected_files_fetched:
  assumes "slim_get_affected_files pr_url w = Some (r, w')"
  shows "fetched (\<lambda>e. (\<exists>u. e = Get u) \<or> (\<exists>s. e = Sleep s) \<or> e = Commit) w w'"
proof (cases "pr_url = []")
  case True
  with assms show ?thesis by (simp add: slim_get_affected_files_def)
next
  case False
  let ?u = "replace ''github.com'' ''api.github.com/repos'' pr_url @ ''/files''"
  from assms False obtain x where "make_request ?u w = Some (x, w')"
    unfolding slim_get_affected_files_def
    by (cases "make_request ?u w") (auto split: option.splits)
  then show ?thesis by (intro get_or_sleep_plain make_request_fetched)
qed

lemma populate_issue_fault:
  assumes "populate_issue repo_name issue pr_url w = Some (res, w')"
    and "db_fault w (executes w)"
  shows "res = Inl SqliteError"
proof -
  from assms(1) obtain b w1 l w2 f w3 where
    1: "get_code_before_after pr_url w = Some (b, w1)"
    and 2: "get_languages repo_name w1 = Some (l, w2)"
    and 3: "slim_get_affected_files pr_url w2 = Some (f, w3)"
    by (auto simp: populate_issue_def split: option.splits prod.splits)
  from get_code_before_after_fetched [OF 1] get_languages_fetched [OF 2]
    slim_get_affected_files_fetched [OF 3]
  have "db_fault w3 = db_fault w" "executes w3 = executes w"
    by (simp_all add: fetched_fields)
  with assms 1 2 3 show ?thesis
    by (auto simp: populate_issue_def cursor_execute_def Let_def split: prod.splits)
qed

lemma populate_issues_abort:
  assumes "\<not> issue_pull_request issue"
    and "get_pull_request_from_issue repo_name (number issue) w = Some (Some pr_url, w1)"
    and "pr_url \<noteq> []"
    and "populate_issue repo_name issue pr_url w1 = Some (Inl e, w2)"
  shows "populate_issues repo_name (issue # rest) w = Some (Inl e, w2)"
  using assms by simp

text \<open>
  Claim C8 as stated fails for \<^verbatim>\<open>populate_db\<close> of \<^verbatim>\<open>slim/slim.py\<close>, whose insert is not
  guarded: when the first insert raises, the run ends with the error and the second issue
  is never attempted. Without the fault both issues are attempted.
\<close>

theorem slim_storage_error_aborts_counterexample:
  "map_option (\<lambda>r. (fst r, attempted (trace (snd r))))
     (populate_db [named ''o/r''] (slim_world\<lparr>db_fault := (\<lambda>n. n = 0)\<rparr>))
     = Some (Inl SqliteError, [''https://github.com/o/r/issues/1''])
   \<and> map_option (\<lambda>r. (fst r, attempted (trace (snd r)))) (populate_db [named ''o/r''] slim_world)
     = Some (Inr (), [''https://github.com/o/r/issues/1'', ''https://github.com/o/r/issues/2''])"
  by code_simp

text \<open>
  Claim C8, amended: it holds for \<^verbatim>\<open>populate_db_from_prs\<close>. Whatever inserts raise, the
  loop over the linked issues of a pull request attempts every issue in order and logs one
  line per insert that raised; the loop over the pull requests of a repository never ends
  with a storage error, and when it ends normally the inserts attempted are the linked
  issues of all its pull requests, in order; it does end normally when the network settles
  and the pull requests are readable, for every pattern of storage faults. In
  \<^verbatim>\<open>slim/slim.py\<close> an insert that raises ends \<open>populate_issue\<close> with the error, and the loop
  over the issues stops there.
\<close>

theorem storage_errors_isolated:
  "(save_linked_issues entry urls a t w = (counts, w') \<longrightarrow>
      (\<exists>evs. trace w' = trace w @ evs \<and> attempted evs = urls \<and> failed evs = logged evs))
   \<and> (process_prs repo_name languages prs a t w = Some (res, w2) \<longrightarrow>
        res \<noteq> Inl SqliteError
        \<and> ((\<exists>c. res = Inr c) \<longrightarrow>
             (\<exists>evs. trace w2 = trace w @ evs
                \<and> attempted evs = concat (map (linked_of repo_name) prs)
                \<and> failed evs = logged evs)))
   \<and> (settles w \<and> list_all (readable repo_name) prs \<longrightarrow>
        (\<exists>c w3. process_prs repo_name languages prs a t w = Some (Inr c, w3)))
   \<and> (populate_issue repo_name issue pr_url w = Some (r4, w4) \<and> db_fault w (executes w) \<longrightarrow>
        r4 = Inl SqliteError)
   \<and> (\<not> issue_pull_request issue
        \<and> get_pull_request_from_issue repo_name (number issue) w = Some (Some pr_url, w5)
        \<and> pr_url \<noteq> [] \<and> populate_issue repo_name issue pr_url w5 = Some (Inl e, w6) \<longrightarrow>
        populate_issues repo_name (issue # rest) w = Some (Inl e, w6))"
proof (intro conjI impI)
  assume "save_linked_issues entry urls a t w = (counts, w')"
  then show "\<exists>evs. trace w' = trace w @ evs \<and> attempted evs = urls \<and> failed evs = logged evs"
    by (rule save_linked_issues_logged)
next
  assume p: "process_prs repo_name languages prs a t w = Some (res, w2)"
  from process_prs_attempts [OF p] show "res \<noteq> Inl SqliteError" by auto
  assume "\<exists>c. res = Inr c"
  with process_prs_attempts [OF p]
  show "\<exists>evs. trace w2 = trace w @ evs
                \<and> attempted evs = concat (map (linked_of repo_name) prs)
                \<and> failed evs = logged evs"
    by auto
next
  assume "settles w \<and> list_all (readable repo_name) prs"
  then show "\<exists>c w3. process_prs repo_name languages prs a t w = Some (Inr c, w3)"
    using process_prs_total by blast
next
  assume "populate_issue repo_name issue pr_url w = Some (r4, w4) \<and> db_fault w (executes w)"
  then show "r4 = Inl SqliteError" using populate_issue_fault by blast
next
  assume "\<not> issue_pull_request issue
        \<and> get_pull_request_from_issue repo_name (number issue) w = Some (Some pr_url, w5)
        \<and> pr_url \<noteq> [] \<and> populate_issue repo_name issue pr_url w5 = Some (Inl e, w6)"
  then show "populate_issues repo_name (issue # rest) w = Some (Inl e, w6)"
    using populate_issues_abort by blast
qed

theorem storage_errors_isolated_witness:
  "(\<exists>c w3. process_prs ''o/r'' ''[]''
        [sample_pr, merged_pr ''https://github.com/o/r/pull/6'' ''fixes #2, fixes #3''] 0 0 faulty_world
        = Some (Inr c, w3)
      \<and> attempted (trace w3) = [''https://github.com/o/r/issues/1'',
            ''https://github.com/o/r/issues/2'', ''https://github.com/o/r/issues/3'']
      \<and> failed (trace w3) = logged (trace w3))
   \<and> attempted (trace (snd (save_linked_issues (sample_row [] ''[]'') [''a'', ''b''] 0 0 faulty_world)))
       = [''a'', ''b'']
   \<and> map_option fst (populate_issue ''o/r'' (hd (json_issues rich_response))
        ''https://github.com/o/r/pull/5'' (slim_world\<lparr>db_fault := (\<lambda>n. n = 0)\<rparr>))
       = Some (Inl SqliteError)
   \<and> map_option fst (populate_issues ''o/r'' (json_issues rich_response)
        (slim_world\<lparr>db_fault := (\<lambda>n. n = 0)\<rparr>))
       = Some (Inl SqliteError)"
proof (intro conjI)
  let ?prs = "[sample_pr, merged_pr ''https://github.com/o/r/pull/6'' ''fixes #2, fixes #3'']"
  have st: "settles faulty_world"
    by (simp add: settles_def faulty_world_def failing_world_def fresh_world_def retryable_def
        blank_response_def)
  have rd: "list_all (readable ''o/r'') ?prs" by code_simp
  have tr: "trace faulty_world = []"
    by (simp add: faulty_world_def failing_world_def fresh_world_def)
  have li: "concat (map (linked_of ''o/r'') ?prs) = [''https://github.com/o/r/issues/1'',
            ''https://github.com/o/r/issues/2'', ''https://github.com/o/r/issues/3'']"
    by code_simp
  note T = storage_errors_isolated [where w = faulty_world and repo_name = "''o/r''"
      and languages = "''[]''" and prs = ?prs and a = 0 and t = 0]
  from T st rd obtain c w3 where
    p: "process_prs ''o/r'' ''[]'' ?prs 0 0 faulty_world = Some (Inr c, w3)"
    by blast
  from storage_errors_isolated [where w = faulty_world and repo_name = "''o/r''"
      and languages = "''[]''" and prs = ?prs and a = 0 and t = 0 and res = "Inr c" and ?w2.0 = w3] p
  obtain evs where "trace w3 = trace faulty_world @ evs"
    "attempted evs = concat (map (linked_of ''o/r'') ?prs)" "failed evs = logged evs"
    by blast
  with p tr li
  show "\<exists>c w3. process_prs ''o/r'' ''[]'' ?prs 0 0 faulty_world = Some (Inr c, w3)
      \<and> attempted (trace w3) = [''https://github.com/o/r/issues/1'',
            ''https://github.com/o/r/issues/2'', ''https://github.com/o/r/issues/3'']
      \<and> failed (trace w3) = logged (trace w3)"
    by simp
next
  let ?l = "save_linked_issues (sample_row [] ''[]'') [''a'', ''b''] 0 0 faulty_world"
  have "?l = (fst ?l, snd ?l)" by simp
  from storage_errors_isolated [where entry = "sample_row [] ''[]''" and urls = "[''a'', ''b'']"
      and a = 0 and t = 0 and w = faulty_world and counts = "fst ?l" and w' = "snd ?l"] this
  obtain evs where "trace (snd ?l) = trace faulty_world @ evs" "attempted evs = [''a'', ''b'']"
    by blast
  then show "attempted (trace (snd ?l)) = [''a'', ''b'']"
    by (simp add: faulty_world_def failing_world_def fresh_world_def)
next
  let ?w = "slim_world\<lparr>db_fault := (\<lambda>n. n = 0)\<rparr>"
  let ?i = "hd (json_issues rich_response)"
  let ?p = "''https://github.com/o/r/pull/5''"
  have "populate_issue ''o/r'' ?i ?p ?w \<noteq> None" by code_simp
  then obtain r4 w4 where r: "populate_issue ''o/r'' ?i ?p ?w = Some (r4, w4)" by auto
  have f: "db_fault ?w (executes ?w)" by (simp add: slim_world_def fresh_world_def)
  from storage_errors_isolated [where repo_name = "''o/r''" and issue = ?i and pr_url = ?p
      and w = ?w and ?r4.0 = r4 and ?w4.0 = w4] r f
  have "r4 = Inl SqliteError" by blast
  with r show "map_option fst (populate_issue ''o/r'' ?i ?p ?w) = Some (Inl SqliteError)" by simp
next
  let ?w = "slim_world\<lparr>db_fault := (\<lambda>n. n = 0)\<rparr>"
  let ?i = "hd (json_issues rich_response)"
  let ?p = "''https://github.com/o/r/pull/5''"
  let ?u = "timeline_url ''o/r'' (number ?i)"
  let ?w5 = "emit (Get ?u) (?w\<lparr>requests_sent := Suc (requests_sent ?w)\<rparr>)"
  have nr: "\<not> retryable (net ?w (requests_sent ?w) ?u)"
    by (simp add: slim_world_def fresh_world_def retryable_def rich_response_def)
  have g: "get_pull_request_from_issue ''o/r'' (number ?i) ?w = Some (Some ?p, ?w5)"
    using make_request_terminal [OF nr]
    by (simp add: get_pull_request_from_issue_def spec_result_def slim_world_def fresh_world_def
        rich_response_def)
  have "populate_issue ''o/r'' ?i ?p ?w5 \<noteq> None" by code_simp
  then obtain r w6 where r: "populate_issue ''o/r'' ?i ?p ?w5 = Some (r, w6)" by auto
  have f: "db_fault ?w5 (executes ?w5)" by (simp add: slim_world_def fresh_world_def)
  from storage_errors_isolated [where repo_name = "''o/r''" and issue = ?i and pr_url = ?p
      and w = ?w5 and ?r4.0 = r and ?w4.0 = w6] r f
  have e: "r = Inl SqliteError" by blast
  have ni: "\<not> issue_pull_request ?i" "?p \<noteq> []" by (simp_all add: rich_response_def)
  have js: "json_issues rich_response = ?i # tl (json_issues rich_response)"
    by (simp add: rich_response_def)
  from storage_errors_isolated [where repo_name = "''o/r''" and issue = ?i and pr_url = ?p
      and w = ?w and ?w5.0 = ?w5 and e = SqliteError and ?w6.0 = w6
      and rest = "tl (json_issues rich_response)"] ni g r e
  have "populate_issues ''o/r'' (?i # tl (json_issues rich_response)) ?w = Some (Inl SqliteError, w6)"
    by blast
  then show "map_option fst (populate_issues ''o/r'' (json_issues rich_response) ?w)
       = Some (Inl SqliteError)"
    using js by simp
qed

lemma str_int_small:
  "str_int 1 = ''1''" "str_int 2 = ''2''" "str_int 3 = ''3''" "str_int 30 = ''30''"
  by code_simp+

lemma pulls_url_pages:
  "pulls_url n 30 1 = ''https://api.github.com/repos/'' @ n
      @ ''/pulls?state=closed&sort=updated&direction=desc&per_page=30&page=1''"
  "pulls_url n 30 2 = ''https://api.github.com/repos/'' @ n
      @ ''/pulls?state=closed&sort=updated&direction=desc&per_page=30&page=2''"
  "pulls_url n 30 3 = ''https://api.github.com/repos/'' @ n
      @ ''/pulls?state=closed&sort=updated&direction=desc&per_page=30&page=3''"
  by (simp_all add: pulls_url_def str_int_small)

lemma languages_url_inj: "languages_url n = languages_url x \<Longrightarrow> n = x"
  by (simp add: languages_url_def)

lemma pulls_url_inj:
  assumes "pulls_url n 30 p = pulls_url x 30 q" and "p \<in> {1, 2, 3}" and "q \<in> {1, 2, 3}"
  shows "n = x"
  using assms by (auto simp: pulls_url_pages)

lemma languages_not_pulls:
  assumes "p \<in> {1, 2, 3}"
  shows "languages_url n \<noteq> pulls_url x 30 p"
proof
  assume "languages_url n = pulls_url x 30 p"
  then have "last (languages_url n) = last (pulls_url x 30 p)" by simp
  with assms show False by (auto simp: pulls_url_pages languages_url_def)
qed

lemma languages_not_files: "\<not> suffix ''/files'' (languages_url n)"
  by (simp add: languages_url_def suffix_to_prefix)

lemma pulls_not_files:
  assumes "p \<in> {1, 2, 3}"
  shows "\<not> suffix ''/files'' (pulls_url n 30 p)"
  using assms by (auto simp: pulls_url_pages suffix_to_prefix)

lemma files_url_of_suffix: "files_url_of pr_url = Inr u \<Longrightarrow> suffix ''/files'' u"
  by (auto simp: files_url_of_def Let_def suffix_def split: if_splits sum.splits)

section \<open>Frames of the processing of a repository\<close>

lemma progressed_refl [simp]: "progressed P Q w w"
  by (simp add: progressed_def)

lemma progressed_trans:
  assumes "progressed P Q w w1" and "progressed P Q w1 w2"
  shows "progressed P Q w w2"
proof -
  from assms(1) obtain evs rows where
    1: "trace w1 = trace w @ evs" "list_all P evs" "table w1 = table w @ rows" "list_all Q rows"
    unfolding progressed_def by blast
  from assms(2) obtain evs' rows' where
    2: "trace w2 = trace w1 @ evs'" "list_all P evs'" "table w2 = table w1 @ rows'" "list_all Q rows'"
    unfolding progressed_def by blast
  have "trace w2 = trace w @ (evs @ evs') \<and> list_all P (evs @ evs')"
    "table w2 = table w @ (rows @ rows') \<and> list_all Q (rows @ rows')"
    using 1 2 by simp_all
  then have "(\<exists>evs. trace w2 = trace w @ evs \<and> list_all P evs)"
    "(\<exists>rows. table w2 = table w @ rows \<and> list_all Q rows)"
    by blast+
  with assms show ?thesis unfolding progressed_def by simp
qed

lemma progressed_mono:
  assumes "progressed P Q w w'" and "\<And>e. P e \<Longrightarrow> P' e" and "\<And>r. Q r \<Longrightarrow> Q' r"
  shows "progressed P' Q' w w'"
proof -
  from assms(1) obtain evs rows where
    1: "trace w' = trace w @ evs" "list_all P evs" "table w' = table w @ rows" "list_all Q rows"
    unfolding progressed_def by blast
  from 1(2) assms(2) have "list_all P' evs" unfolding list_all_iff by blast
  moreover from 1(4) assms(3) have "list_all Q' rows" unfolding list_all_iff by blast
  ultimately have "(\<exists>evs. trace w' = trace w @ evs \<and> list_all P' evs)"
    "(\<exists>rows. table w' = table w @ rows \<and> list_all Q' rows)"
    using 1 by blast+
  with assms(1) show ?thesis unfolding progressed_def by simp
qed

lemma fetched_progressed:
  assumes "fetched P w w'"
  shows "progressed P Q w w'"
proof -
  from fetched_trace [OF assms] have "\<exists>evs. trace w' = trace w @ evs \<and> list_all P evs" .
  moreover have "table w' = table w @ [] \<and> list_all Q []"
    using fetched_fields(5) [OF assms] by simp
  then have "\<exists>rows. table w' = table w @ rows \<and> list_all Q rows" by blast
  ultimately show ?thesis
    unfolding progressed_def using fetched_fields [OF assms] by simp
qed

lemma save_linked_issues_progressed:
  assumes "save_linked_issues entry urls a t w = (counts, w')"
  shows "progressed pr_event (\<lambda>r. r = entry\<lparr>row_issue_url := row_issue_url r\<rparr>) w w'"
proof -
  obtain a' t' where c: "counts = (a', t')" by (cases counts)
  from save_linked_issues_trace [OF assms] obtain evs where
    e: "trace w' = trace w @ evs"
      "list_all (\<lambda>e. (\<exists>u r. e = Execute u r) \<or> (\<exists>u. e = PrintDbError u)) evs"
    by blast
  from e(2) have "list_all pr_event evs"
    unfolding list_all_iff by (auto simp: pr_event_def)
  with e(1) have 1: "\<exists>evs. trace w' = trace w @ evs \<and> list_all pr_event evs" by blast
  from save_linked_issues_table [OF assms [unfolded c]] obtain rows where
    r: "table w' = table w @ rows"
      "list_all (\<lambda>r. r = entry\<lparr>row_issue_url := row_issue_url r\<rparr> \<and> row_issue_url r \<in> set urls) rows"
    by blast
  from r(2) have "list_all (\<lambda>r. r = entry\<lparr>row_issue_url := row_issue_url r\<rparr>) rows"
    unfolding list_all_iff by blast
  with r(1) have 2: "\<exists>rows. table w' = table w @ rows
      \<and> list_all (\<lambda>r. r = entry\<lparr>row_issue_url := row_issue_url r\<rparr>) rows" by blast
  from 1 2 save_linked_issues_frame [OF assms] show ?thesis
    unfolding progressed_def by simp
qed

lemma after_pr_progressed: "progressed pr_event Q w (after_pr n w)"
proof -
  have "list_all pr_event ((if n > 0 \<and> n mod 10 = 0 then [Commit] else []) @ [Sleep (1 / 2)])"
    by (simp add: pr_event_def)
  with after_pr_trace [of n w] have "\<exists>evs. trace (after_pr n w) = trace w @ evs \<and> list_all pr_event evs"
    by blast
  moreover have "table (after_pr n w) = table w @ [] \<and> list_all Q []" by simp
  then have "\<exists>rows. table (after_pr n w) = table w @ rows \<and> list_all Q rows" by blast
  ultimately show ?thesis unfolding progressed_def by simp
qed

lemma files_fetch_progressed:
  assumes "get_affected_files pr_url w = Some (r, w')"
  shows "progressed pr_event Q w w'"
proof (rule fetched_progressed)
  show "fetched pr_event w w'"
  proof (rule fetched_mono [OF get_affected_files_fetched [OF assms]])
    fix e
    assume "\<exists>u. files_url_of pr_url = Inr u \<and> get_or_sleep u e"
    then obtain u where u: "files_url_of pr_url = Inr u" "get_or_sleep u e" by blast
    from get_or_sleep_cases [OF u(2)] files_url_of_suffix [OF u(1)] show "pr_event e"
      by (auto simp: pr_event_def)
  qed
qed

lemma process_pr_progressed:
  assumes "process_pr repo_name languages pr a t w = Some (res, w')"
  shows "progressed pr_event (\<lambda>r. row_languages r = languages \<and> row_repo_name r = repo_name) w w'"
    (is "progressed _ ?Q w w'")
proof (cases "get_issues_from_pr pr repo_name")
  case (Inl e)
  with assms show ?thesis by (simp add: process_pr_pattern_error)
next
  case (Inr linked)
  show ?thesis
  proof (cases "linked = []")
    case True
    with Inr assms have "w' = after_pr a w" by (simp add: process_pr_no_issues)
    then show ?thesis by (simp add: after_pr_progressed)
  next
    case False
    from assms Inr False obtain x w1 where
      g: "get_affected_files (html_url pr) w = Some (x, w1)"
      by (auto simp: process_pr_def save_pr_def Let_def split: option.splits)
    have p1: "progressed pr_event ?Q w w1" by (rule files_fetch_progressed [OF g])
    show ?thesis
    proof (cases x)
      case (Inl e)
      from process_pr_index_error [OF Inr False] g Inl assms have "w' = w1" by simp
      with p1 show ?thesis by simp
    next
      case (Inr files)
      let ?entry = "pr_entry repo_name languages pr files"
      obtain a' t' w2 where sv: "save_linked_issues ?entry linked a t w1 = ((a', t'), w2)"
        by (metis prod.exhaust)
      from process_pr_saved [OF \<open>get_issues_from_pr pr repo_name = Inr linked\<close> False _ sv] g Inr assms
      have w': "w' = after_pr a' w2" by simp
      have "progressed pr_event ?Q w1 w2"
      proof (rule progressed_mono [OF save_linked_issues_progressed [OF sv]])
        fix r
        assume "r = ?entry\<lparr>row_issue_url := row_issue_url r\<rparr>"
        then have "row_languages r = row_languages ?entry" "row_repo_name r = row_repo_name ?entry"
          by (metis fixed_issue.select_convs(4) fixed_issue.surjective fixed_issue.update_convs(1),
              metis fixed_issue.select_convs(2) fixed_issue.surjective fixed_issue.update_convs(1))
        then show "row_languages r = languages \<and> row_repo_name r = repo_name"
          by (simp add: pr_entry_def)
      qed
      with p1 have "progressed pr_event ?Q w w2" by (rule progressed_trans)
      then show ?thesis unfolding w' by (rule progressed_trans) (rule after_pr_progressed)
    qed
  qed
qed

lemma process_prs_progressed:
  "process_prs repo_name languages prs a t w = Some (res, w') \<Longrightarrow>
     progressed pr_event (\<lambda>r. row_languages r = languages \<and> row_repo_name r = repo_name) w w'"
proof (induction prs arbitrary: a t w)
  case Nil
  then show ?case by simp
next
  case (Cons pr prs)
  from Cons.prems obtain x w1 where
    p: "process_pr repo_name languages pr a t w = Some (x, w1)"
    by (auto split: option.splits)
  note p1 = process_pr_progressed [OF p]
  show ?case
  proof (cases x)
    case (Inl e)
    with p Cons.prems have "w' = w1" by simp
    with p1 show ?thesis by simp
  next
    case (Inr c)
    obtain a1 t1 where "c = (a1, t1)" by (cases c)
    with p Inr Cons.prems have "process_prs repo_name languages prs a1 t1 w1 = Some (res, w')"
      by simp
    from p1 Cons.IH [OF this] show ?thesis by (rule progressed_trans)
  qed
qed

lemma upto_1_3: "[1..3] = [1, 2, 3::int]"
  by code_simp

lemma get_merged_prs_loop_fetched:
  "get_merged_prs_loop repo_name per_page pages prs w = Some (prs', w') \<Longrightarrow>
     fetched (\<lambda>e. case e of Get u \<Rightarrow> u \<in> set (map (pulls_url repo_name per_page) pages)
                   | Sleep secs \<Rightarrow> True | _ \<Rightarrow> False) w w'"
proof (induction pages arbitrary: prs w)
  case Nil
  then show ?case by simp
next
  case (Cons page rest)
  let ?P = "\<lambda>e. case e of Get u \<Rightarrow> u \<in> set (map (pulls_url repo_name per_page) (page # rest))
                   | Sleep secs \<Rightarrow> True | _ \<Rightarrow> False"
  from Cons.prems obtain r w1 where
    m: "make_request (pulls_url repo_name per_page page) w = Some (r, w1)"
    by (auto split: option.splits)
  have f1: "fetched ?P w w1"
    by (rule fetched_mono [OF make_request_fetched [OF m]])
       (auto dest: get_or_sleep_cases)
  show ?case
  proof (cases r)
    case None
    with m Cons.prems have "w' = w1" by simp
    with f1 show ?thesis by simp
  next
    case (Some response)
    with m Cons.prems have
      l: "get_merged_prs_loop repo_name per_page rest
            (prs @ filter (\<lambda>pr. truthy (merged_at pr)) (json_pulls response)) (sleep 1 w1)
          = Some (prs', w')"
      by simp
    have f2: "fetched ?P w1 (sleep 1 w1)" by (rule fetched_sleep) simp
    have f3: "fetched ?P (sleep 1 w1) w'"
      by (rule fetched_mono [OF Cons.IH [OF l]]) (auto split: event.splits)
    from f1 f2 f3 show ?thesis by (blast intro: fetched_trans)
  qed
qed

lemma get_merged_prs_fetched:
  assumes "get_merged_prs repo_name 30 3 w = Some (prs, w')"
  shows "fetched (pulls_event repo_name) w w'"
proof -
  from assms have "get_merged_prs_loop repo_name 30 [1, 2, 3] [] w = Some (prs, w')"
    by (simp add: get_merged_prs_def upto_1_3)
  from get_merged_prs_loop_fetched [OF this] show ?thesis
    unfolding pulls_event_def .
qed

lemma get_merged_prs_loop_total:
  "settles w \<Longrightarrow> \<exists>prs' w'. get_merged_prs_loop repo_name per_page pages prs w = Some (prs', w')"
proof (induction pages arbitrary: prs w)
  case Nil
  then show ?case by simp
next
  case (Cons page rest)
  from make_request_total [OF Cons.prems] obtain r w1 where
    m: "make_request (pulls_url repo_name per_page page) w = Some (r, w1)" by blast
  from settles_fetched [OF make_request_fetched [OF m] Cons.prems] have "settles w1" .
  then have s: "settles (sleep 1 w1)" by (simp add: settles_def)
  show ?case
  proof (cases r)
    case None
    with m show ?thesis by simp
  next
    case (Some response)
    with m Cons.IH [OF s] show ?thesis by simp
  qed
qed

lemma get_languages_total:
  assumes "settles w"
  shows "\<exists>languages w'. get_languages repo_name w = Some (languages, w')"
proof -
  from make_request_total [OF assms] obtain r w1 where
    "make_request (languages_url repo_name) w = Some (r, w1)" by blast
  then show ?thesis by (cases r) (simp_all add: get_languages_def)
qed

lemma get_languages_failed:
  "make_request (languages_url repo_name) w = Some (None, w1) \<Longrightarrow>
     get_languages repo_name w = Some (''[]'', w1)"
  by (simp add: get_languages_def)

lemma conn_commit_progressed: "progressed (\<lambda>e. e = Commit) Q w (conn_commit w)"
proof -
  have "trace (conn_commit w) = trace w @ [Commit] \<and> list_all (\<lambda>e. e = Commit) [Commit]" by simp
  then have "\<exists>evs. trace (conn_commit w) = trace w @ evs \<and> list_all (\<lambda>e. e = Commit) evs"
    by blast
  moreover have "table (conn_commit w) = table w @ [] \<and> list_all Q []" by simp
  then have "\<exists>rows. table (conn_commit w) = table w @ rows \<and> list_all Q rows" by blast
  ultimately show ?thesis unfolding progressed_def by simp
qed

lemma later_event_simps:
  "pr_event e \<Longrightarrow> later_event n e" "pulls_event n e \<Longrightarrow> later_event n e"
  "later_event n Commit"
  by (simp_all add: later_event_def pr_event_def)

lemma populate_repos_single:
  assumes "populate_repos [repo] total_added w = Some (res, w')"
  shows "\<exists>languages w1. get_languages (full_name repo) w = Some (languages, w1)
           \<and> progressed (later_event (full_name repo))
                (\<lambda>r. row_languages r = languages \<and> row_repo_name r = full_name repo) w1 w'"
proof -
  let ?n = "full_name repo"
  from assms obtain languages w1 where l: "get_languages ?n w = Some (languages, w1)"
    by (auto split: option.splits)
  let ?Q = "\<lambda>r. row_languages r = languages \<and> row_repo_name r = ?n"
  from assms l obtain prs w2 where g: "get_merged_prs ?n 30 3 w1 = Some (prs, w2)"
    by (auto split: option.splits)
  have p12: "progressed (later_event ?n) ?Q w1 w2"
    by (rule progressed_mono [OF fetched_progressed [OF get_merged_prs_fetched [OF g]]])
       (simp_all add: later_event_simps)
  have "progressed (later_event ?n) ?Q w1 w'"
  proof (cases "prs = []")
    case True
    with assms l g have "w' = w2" by simp
    with p12 show ?thesis by simp
  next
    case False
    from assms l g False obtain x w3 where
      p: "process_prs ?n languages prs 0 total_added w2 = Some (x, w3)"
      by (auto split: option.splits)
    have p23: "progressed (later_event ?n) ?Q w2 w3"
      by (rule progressed_mono [OF process_prs_progressed [OF p]])
         (simp_all add: later_event_simps)
    show ?thesis
    proof (cases x)
      case (Inl e)
      with assms l g False p have "w' = w3" by simp
      with p12 p23 show ?thesis by (blast intro: progressed_trans)
    next
      case (Inr c)
      obtain a1 t1 where "c = (a1, t1)" by (cases c)
      with assms l g False p Inr have "w' = conn_commit w3" by simp
      moreover have "progressed (later_event ?n) ?Q w3 (conn_commit w3)"
        by (rule progressed_mono [OF conn_commit_progressed]) (simp_all add: later_event_simps)
      ultimately show ?thesis using p12 p23 by (blast intro: progressed_trans)
    qed
  qed
  with l show ?thesis by blast
qed

section \<open>The language lookup\<close>

lemma requested_set: "set (requested evs) = {u. Get u \<in> set evs}"
  by (induction evs rule: requested.induct) auto

lemma requested_append [simp]: "requested (xs @ ys) = requested xs @ requested ys"
  by (induction xs rule: requested.induct) auto

lemma later_event_not_languages: "later_event n (Get u) \<Longrightarrow> u \<noteq> languages_url n"
proof
  assume l: "later_event n (Get u)" and u: "u = languages_url n"
  from l have "suffix ''/files'' u \<or> u \<in> set (map (pulls_url n 30) [1, 2, 3])"
    by (simp add: later_event_def pr_event_def pulls_event_def)
  then show False
  proof
    assume "suffix ''/files'' u"
    with u languages_not_files show False by simp
  next
    assume "u \<in> set (map (pulls_url n 30) [1, 2, 3])"
    then obtain p where "p \<in> {1, 2, 3}" "u = pulls_url n 30 p" by auto
    with u languages_not_pulls [of p n n] show False by simp
  qed
qed

lemma later_events_not_languages:
  "list_all (later_event n) evs \<Longrightarrow> languages_url n \<notin> set (requested evs)"
  unfolding requested_set list_all_iff using later_event_not_languages by blast

lemma populate_repos_Cons:
  "populate_repos (repo # rest) total_added w =
     (case populate_repos [repo] total_added w of
        None \<Rightarrow> None
      | Some (Inl e, w1) \<Rightarrow> Some (Inl e, w1)
      | Some (Inr total_added1, w1) \<Rightarrow> populate_repos rest total_added1 w1)"
  by (simp split: option.splits sum.splits prod.splits)

lemma populate_issue_looks_up:
  assumes "populate_issue repo_name issue pr_url w = Some (res, w')"
  shows "\<exists>b w1 languages w2. get_code_before_after pr_url w = Some (b, w1)
           \<and> get_languages repo_name w1 = Some (languages, w2)"
  using assms by (auto simp: populate_issue_def split: option.splits prod.splits)

text \<open>Claim C6, the issue-driven script: \<^verbatim>\<open>populate_db\<close> of slim/slim.py calls
  \<^verbatim>\<open>get_languages\<close> inside the loop over the issues, once for every issue that has a linked
  pull request. A repository with two such issues has its language endpoint queried twice
  in one run: the lookup is not cached per repository there.\<close>

theorem slim_languages_per_issue_counterexample:
  "map_option (\<lambda>r. (fst r, count_list (requested (trace (snd r))) (languages_url ''o/r'')))
     (populate_db [named ''o/r''] slim_world) = Some (Inr (), 2)"
  by code_simp

text \<open>Claim C6, as the code has it. In \<^verbatim>\<open>slim_scraper.py\<close> the turn of the loop of
  \<^verbatim>\<open>populate_db_from_prs\<close> for one repository starts with one language lookup; no later
  request of that turn goes to the language endpoint of the repository, and every row the
  turn stores carries the result of that lookup and the name of the repository. The loop
  over a list of repositories is the sequence of these turns, so a repository is looked up
  once for each of its occurrences in the list. A failed language fetch yields the
  serialized empty list \<^verbatim>\<open>[]\<close> and the lookup returns whenever the network settles.
  In slim/slim.py every stored issue runs a lookup of its own, after the request for the
  pull request.\<close>

theorem languages_looked_up_once_per_turn:
  "(populate_repos [repo] total_added w = Some (res, w') \<longrightarrow>
      (\<exists>languages w1 evs rows.
          get_languages (full_name repo) w = Some (languages, w1)
        \<and> trace w' = trace w1 @ evs
        \<and> languages_url (full_name repo) \<notin> set (requested evs)
        \<and> table w' = table w @ rows
        \<and> list_all (\<lambda>r. row_languages r = languages \<and> row_repo_name r = full_name repo) rows))
   \<and> populate_repos (repo # rest) total_added w =
       (case populate_repos [repo] total_added w of
          None \<Rightarrow> None
        | Some (Inl e, w1) \<Rightarrow> Some (Inl e, w1)
        | Some (Inr total_added1, w1) \<Rightarrow> populate_repos rest total_added1 w1)
   \<and> (make_request (languages_url repo_name) w = Some (None, w2) \<longrightarrow>
        get_languages repo_name w = Some (''[]'', w2))
   \<and> (settles w \<longrightarrow> (\<exists>languages w3. get_languages repo_name w = Some (languages, w3)))
   \<and> (populate_issue repo_name issue pr_url w = Some (r4, w4) \<longrightarrow>
        (\<exists>b w5 languages w6. get_code_before_after pr_url w = Some (b, w5)
           \<and> get_languages repo_name w5 = Some (languages, w6)))"
proof (intro conjI impI)
  assume a: "populate_repos [repo] total_added w = Some (res, w')"
  let ?n = "full_name repo"
  from populate_repos_single [OF a] obtain languages w1 where
    l: "get_languages ?n w = Some (languages, w1)"
    and p: "progressed (later_event ?n) (\<lambda>r. row_languages r = languages \<and> row_repo_name r = ?n) w1 w'"
    by blast
  from p obtain evs rows where
    e: "trace w' = trace w1 @ evs" "list_all (later_event ?n) evs"
    and r: "table w' = table w1 @ rows"
      "list_all (\<lambda>r. row_languages r = languages \<and> row_repo_name r = ?n) rows"
    unfolding progressed_def by blast
  have "table w1 = table w"
    using fetched_fields(5) [OF get_languages_fetched [OF l]] .
  with l e r later_events_not_languages [OF e(2)]
  show "\<exists>languages w1 evs rows.
          get_languages ?n w = Some (languages, w1)
        \<and> trace w' = trace w1 @ evs
        \<and> languages_url ?n \<notin> set (requested evs)
        \<and> table w' = table w @ rows
        \<and> list_all (\<lambda>r. row_languages r = languages \<and> row_repo_name r = ?n) rows"
    by auto
next
  show "populate_repos (repo # rest) total_added w =
       (case populate_repos [repo] total_added w of
          None \<Rightarrow> None
        | Some (Inl e, w1) \<Rightarrow> Some (Inl e, w1)
        | Some (Inr total_added1, w1) \<Rightarrow> populate_repos rest total_added1 w1)"
    by (rule populate_repos_Cons)
next
  assume "make_request (languages_url repo_name) w = Some (None, w2)"
  then show "get_languages repo_name w = Some (''[]'', w2)" by (rule get_languages_failed)
next
  assume "settles w"
  then show "\<exists>languages w3. get_languages repo_name w = Some (languages, w3)"
    by (rule get_languages_total)
next
  assume "populate_issue repo_name issue pr_url w = Some (r4, w4)"
  then show "\<exists>b w5 languages w6. get_code_before_after pr_url w = Some (b, w5)
           \<and> get_languages repo_name w5 = Some (languages, w6)"
    by (rule populate_issue_looks_up)
qed

text \<open>The language lookup on a repository with one merged pull request closing one issue,
  on a network that fails, and in the issue-driven script.\<close>

theorem languages_looked_up_once_per_turn_witness:
  "(\<exists>res w' w1 evs rows.
       populate_repos [named ''o/r''] 0 single_pr_world = Some (res, w')
     \<and> get_languages ''o/r'' single_pr_world = Some (json_dumps [''Python''], w1)
     \<and> trace w' = trace w1 @ evs
     \<and> languages_url ''o/r'' \<notin> set (requested evs)
     \<and> table w' = rows
     \<and> list_all (\<lambda>r. row_languages r = json_dumps [''Python''] \<and> row_repo_name r = ''o/r'') rows)
   \<and> map_option (\<lambda>r. map row_languages (table (snd r)))
        (populate_repos [named ''o/r''] 0 single_pr_world) = Some [json_dumps [''Python'']]
   \<and> map_option fst (get_languages ''o/r'' failing_world) = Some ''[]''
   \<and> (\<exists>b w5 languages w6.
        get_code_before_after ''https://github.com/o/r/pull/5'' slim_world = Some (b, w5)
        \<and> get_languages ''o/r'' w5 = Some (languages, w6))"
proof (intro conjI)
  let ?w = single_pr_world
  let ?u = "languages_url ''o/r''"
  let ?w1 = "emit (Get ?u) (?w\<lparr>requests_sent := Suc (requests_sent ?w)\<rparr>)"
  have "populate_repos [named ''o/r''] 0 ?w \<noteq> None" by code_simp
  then obtain res w' where p: "populate_repos [named ''o/r''] 0 ?w = Some (res, w')" by auto
  have nr: "\<not> retryable (net ?w (requests_sent ?w) ?u)"
    by (simp add: single_pr_world_def fresh_world_def retryable_def blank_response_def)
  have g: "get_languages ''o/r'' ?w = Some (json_dumps [''Python''], ?w1)"
    using make_request_terminal [OF nr]
    by (simp add: get_languages_def spec_result_def single_pr_world_def fresh_world_def
        blank_response_def)
  have t: "table ?w = []" by (simp add: single_pr_world_def fresh_world_def)
  have n: "full_name (named ''o/r'') = ''o/r''" by (simp add: named_def)
  from languages_looked_up_once_per_turn [where repo = "named ''o/r''" and total_added = 0
      and w = ?w and res = res and w' = w'] p
  obtain languages w1 evs rows where
    "get_languages (full_name (named ''o/r'')) ?w = Some (languages, w1)"
    "trace w' = trace w1 @ evs"
    "languages_url (full_name (named ''o/r'')) \<notin> set (requested evs)"
    "table w' = table ?w @ rows"
    "list_all (\<lambda>r. row_languages r = languages \<and> row_repo_name r = full_name (named ''o/r'')) rows"
    by blast
  with p g t n
  show "\<exists>res w' w1 evs rows.
       populate_repos [named ''o/r''] 0 ?w = Some (res, w')
     \<and> get_languages ''o/r'' ?w = Some (json_dumps [''Python''], w1)
     \<and> trace w' = trace w1 @ evs
     \<and> languages_url ''o/r'' \<notin> set (requested evs)
     \<and> table w' = rows
     \<and> list_all (\<lambda>r. row_languages r = json_dumps [''Python''] \<and> row_repo_name r = ''o/r'') rows"
    by auto
next
  show "map_option (\<lambda>r. map row_languages (table (snd r)))
        (populate_repos [named ''o/r''] 0 single_pr_world) = Some [json_dumps [''Python'']]"
    by code_simp
next
  let ?u = "languages_url ''o/r''"
  let ?w1 = "emit (Get ?u) (failing_world\<lparr>requests_sent := Suc (requests_sent failing_world)\<rparr>)"
  have nr: "\<not> retryable (net failing_world (requests_sent failing_world) ?u)"
    by (simp add: failing_world_def fresh_world_def retryable_def blank_response_def)
  have "make_request ?u failing_world = Some (None, ?w1)"
    using make_request_terminal [OF nr]
    by (simp add: spec_result_def failing_world_def fresh_world_def blank_response_def)
  with languages_looked_up_once_per_turn [where repo_name = "''o/r''" and w = failing_world
      and ?w2.0 = ?w1]
  have "get_languages ''o/r'' failing_world = Some (''[]'', ?w1)" by blast
  then show "map_option fst (get_languages ''o/r'' failing_world) = Some ''[]''" by simp
next
  let ?i = "hd (json_issues rich_response)"
  let ?p = "''https://github.com/o/r/pull/5''"
  have "populate_issue ''o/r'' ?i ?p slim_world \<noteq> None" by code_simp
  then obtain r4 w4 where "populate_issue ''o/r'' ?i ?p slim_world = Some (r4, w4)" by auto
  with languages_looked_up_once_per_turn [where repo_name = "''o/r''" and issue = ?i
      and pr_url = ?p and w = slim_world and ?r4.0 = r4 and ?w4.0 = w4]
  show "\<exists>b w5 languages w6.
        get_code_before_after ?p slim_world = Some (b, w5)
        \<and> get_languages ''o/r'' w5 = Some (languages, w6)"
    by blast
qed

end
